theory Spec2Isabelle
  imports Complex_Main "HOL-Library.Sublist"
begin

section \<open>Loop detection in Hi-C contact matrices (hicDetectLoops.py)\<close>

text \<open>
  A shallow embedding of the numerical core of \<^verbatim>\<open>hicexplorer/hicDetectLoops.py\<close>:
  \<^verbatim>\<open>compute_zscore_matrix\<close>, \<^verbatim>\<open>compute_long_range_contacts\<close> and
  \<^verbatim>\<open>candidate_uniform_distribution_test\<close>.

  Numbers. A numpy float is modelled by \<open>fval\<close>: a real number or one of the three
  special values NaN, +inf, -inf. Rounding is not modelled: arithmetic on \<open>Num\<close> is exact.
  Bin indices are Python integers (\<open>int\<close>); array positions and counts are \<open>nat\<close>.

  Exceptions. Every place where the Python raises is a branch \<open>Inl e\<close> of the model.
\<close>

subsection \<open>Values and errors\<close>

text \<open>A stored contact count: a number, or NaN. (Contact counts are never infinite.)\<close>

datatype count = Count real | CountNaN

datatype fval = Num real | NaN | PInf | NInf

datatype error = IndexError | ValueError | OverflowError

fun isfinite :: "fval \<Rightarrow> bool" where
  "isfinite (Num _) = True"
| "isfinite _ = False"

fun of_count :: "count \<Rightarrow> fval" where
  "of_count (Count a) = Num a"
| "of_count CountNaN = NaN"

text \<open>\<^verbatim>\<open>np.nan_to_num\<close> on a contact count: NaN becomes 0.\<close>

fun nan_to_num :: "count \<Rightarrow> real" where
  "nan_to_num (Count a) = a"
| "nan_to_num CountNaN = 0"

text \<open>Comparisons of numpy: every comparison with NaN is false.\<close>

fun fge :: "fval \<Rightarrow> real \<Rightarrow> bool" where
  "fge (Num a) t = (a \<ge> t)"
| "fge PInf t = True"
| "fge _ t = False"

fun cgt :: "count \<Rightarrow> real \<Rightarrow> bool" where
  "cgt (Count a) t = (a > t)"
| "cgt CountNaN t = False"

text \<open>
  Arithmetic of numpy floats on the special values. A zero divisor in this program is
  always a count or a square root, hence \<open>+0\<close>: \<open>a / 0\<close> is \<open>+inf\<close> for positive \<open>a\<close>,
  \<open>-inf\<close> for negative \<open>a\<close> and NaN for \<open>a = 0\<close> (numpy warns and goes on).
\<close>

fun fneg :: "fval \<Rightarrow> fval" where
  "fneg (Num a) = Num (- a)"
| "fneg NaN = NaN"
| "fneg PInf = NInf"
| "fneg NInf = PInf"

fun fadd :: "fval \<Rightarrow> fval \<Rightarrow> fval" where
  "fadd (Num a) (Num b) = Num (a + b)"
| "fadd NaN _ = NaN"
| "fadd _ NaN = NaN"
| "fadd PInf NInf = NaN"
| "fadd NInf PInf = NaN"
| "fadd PInf _ = PInf"
| "fadd _ PInf = PInf"
| "fadd NInf _ = NInf"
| "fadd _ NInf = NInf"

definition fsub :: "fval \<Rightarrow> fval \<Rightarrow> fval" where
  "fsub a b = fadd a (fneg b)"

fun fsquare :: "fval \<Rightarrow> fval" where
  "fsquare (Num a) = Num (a * a)"
| "fsquare NaN = NaN"
| "fsquare _ = PInf"

fun fdiv :: "fval \<Rightarrow> fval \<Rightarrow> fval" where
  "fdiv (Num a) (Num b) =
     (if b \<noteq> 0 then Num (a / b)
      else if a > 0 then PInf else if a < 0 then NInf else NaN)"
| "fdiv NaN _ = NaN"
| "fdiv _ NaN = NaN"
| "fdiv (Num a) _ = Num 0"
| "fdiv PInf (Num b) = (if b \<ge> 0 then PInf else NInf)"
| "fdiv NInf (Num b) = (if b \<ge> 0 then NInf else PInf)"
| "fdiv _ _ = NaN"

fun fsqrt :: "fval \<Rightarrow> fval" where
  "fsqrt (Num a) = (if a < 0 then NaN else Num (sqrt a))"
| "fsqrt PInf = PInf"
| "fsqrt _ = NaN"

subsection \<open>Sparse matrices\<close>

text \<open>
  A scipy CSR matrix in canonical format (indices sorted within each row, no duplicate
  position), as the HiCMatrix loader produces it: its shape and its stored elements in
  storage order, each a position \<open>(row, col)\<close> and a value. \<^verbatim>\<open>M.data\<close> is the list of
  the stored values, \<^verbatim>\<open>M.nonzero()\<close> the positions of the stored values that differ
  from 0 (NaN differs from 0), in the same order.
\<close>

record 'v matrix =
  nrows :: nat
  ncols :: nat
  entries :: "((nat \<times> nat) \<times> 'v) list"

definition data_of :: "'v matrix \<Rightarrow> 'v list" where
  "data_of M = map snd (entries M)"

definition nonzero :: "'v \<Rightarrow> 'v matrix \<Rightarrow> (nat \<times> nat) list" where
  "nonzero zero M = map fst (filter (\<lambda>e. snd e \<noteq> zero) (entries M))"

definition eliminate_zeros :: "'v \<Rightarrow> 'v matrix \<Rightarrow> 'v matrix" where
  "eliminate_zeros zero M = M\<lparr>entries := filter (\<lambda>e. snd e \<noteq> zero) (entries M)\<rparr>"

text \<open>\<^verbatim>\<open>M[r, c]\<close> of the dense array \<^verbatim>\<open>M.toarray()\<close>: the stored value at the position,
  0 where nothing is stored.\<close>

definition dense :: "count matrix \<Rightarrow> nat \<Rightarrow> nat \<Rightarrow> count" where
  "dense M r c = (case map_of (entries M) (r, c) of None \<Rightarrow> Count 0 | Some v \<Rightarrow> v)"

text \<open>Boolean-mask indexing \<^verbatim>\<open>xs[mask]\<close> of numpy: the mask must be as long as the array.\<close>

definition select :: "'a list \<Rightarrow> bool list \<Rightarrow> 'a list" where
  "select xs mask' = map fst (filter snd (zip xs mask'))"

definition mask_index :: "'a list \<Rightarrow> bool list \<Rightarrow> error + 'a list" where
  "mask_index xs mask' =
     (if length mask' \<noteq> length xs then Inl IndexError else Inr (select xs mask'))"

text \<open>\<^verbatim>\<open>np.logical_and\<close> on two one-dimensional arrays, with numpy's broadcasting: equal
  lengths, or one of them of length 1, else ValueError.\<close>

definition logical_and :: "bool list \<Rightarrow> bool list \<Rightarrow> error + bool list" where
  "logical_and a b =
     (if length a = length b then Inr (map (\<lambda>(x, y). x \<and> y) (zip a b))
      else if length a = 1 then Inr (map (\<lambda>y. hd a \<and> y) b)
      else if length b = 1 then Inr (map (\<lambda>x. x \<and> hd b) a)
      else Inl ValueError)"

subsection \<open>The FDR step (lines 266--283)\<close>

text \<open>
  \<^verbatim>\<open>
  pvalues_ = np.array([e if ~np.isnan(e) else 1 for e in pvalues])
  pvalues_ = np.sort(pvalues_)
  largest_p_i = -np.inf
  for i, p in enumerate(pvalues_):
      if p <= (pQValue * (i + 1) / len(pvalues_)):
          if p >= largest_p_i:
              largest_p_i = p
  \<close>
  The p-values reaching this point passed \<^verbatim>\<open>pvalue < pPValue\<close> after the NaN check of the
  testing loop, so they are real numbers and the NaN replacement is the identity on them.
  \<open>largest_p_i\<close> is \<open>None\<close> while it is \<open>-inf\<close>.
\<close>

fun ge_largest :: "real \<Rightarrow> real option \<Rightarrow> bool" where
  "ge_largest p None = True"
| "ge_largest p (Some l) = (p \<ge> l)"

fun lt_largest :: "real \<Rightarrow> real option \<Rightarrow> bool" where
  "lt_largest p None = False"
| "lt_largest p (Some l) = (p < l)"

fun largest_p_loop :: "real \<Rightarrow> nat \<Rightarrow> nat \<Rightarrow> real list \<Rightarrow> real option \<Rightarrow> real option" where
  "largest_p_loop q m i [] largest = largest"
| "largest_p_loop q m i (p # ps) largest =
     largest_p_loop q m (Suc i) ps
       (if p \<le> q * real (i + 1) / real m
        then (if ge_largest p largest then Some p else largest)
        else largest)"

definition largest_p_i :: "real \<Rightarrow> real list \<Rightarrow> real option" where
  "largest_p_i pQValue pvalues =
     (let pvalues' = sort pvalues
      in largest_p_loop pQValue (length pvalues') 0 pvalues' None)"

text \<open>
  \<^verbatim>\<open>
  for i, candidate in enumerate(pCandidates):
      if pvalues[i] < largest_p_i:
          accepted_index.append(candidate)
          pvalues_accepted.append(pvalues[i])
  \<close>
  The candidates and their p-values are kept as one list of pairs.
\<close>

definition fdr_accept :: "real \<Rightarrow> ((int \<times> int) \<times> real) list \<Rightarrow> ((int \<times> int) \<times> real) list" where
  "fdr_accept pQValue cps =
     (let largest = largest_p_i pQValue (map snd cps)
      in filter (\<lambda>cp. lt_largest (snd cp) largest) cps)"

subsection \<open>The neighbourhood of a candidate (lines 187--199)\<close>

text \<open>
  A Python slice bound on an axis of length \<open>n\<close>: a negative bound counts from the end,
  and every bound is clamped to \<open>0..n\<close>. \<^verbatim>\<open>M[a:b]\<close> takes the indices from the start bound
  up to, and without, the stop bound.
\<close>

definition slice_bound :: "nat \<Rightarrow> int \<Rightarrow> nat" where
  "slice_bound n i = (if i < 0 then nat (max 0 (i + int n)) else min (nat i) n)"

definition slice_indices :: "nat \<Rightarrow> int \<Rightarrow> int \<Rightarrow> nat list" where
  "slice_indices n start stop = [slice_bound n start ..< slice_bound n stop]"

text \<open>
  \<^verbatim>\<open>
  start_x = candidate[0] - pWindowSize if candidate[0] - pWindowSize > 0 else 0
  end_x = candidate[0] + pWindowSize if candidate[0] + pWindowSize < x_max else x_max
  start_y = candidate[1] - pWindowSize if candidate[1] - pWindowSize > 0 else 0
  end_y = candidate[1] + pWindowSize if candidate[1] + pWindowSize < y_max else y_max
  neighborhood = pHiCMatrix.matrix[start_x:end_x, start_y:end_y].toarray().flatten()
  \<close>
  \<open>neighborhood_positions\<close> lists the positions of the slice in the row-major order of
  \<^verbatim>\<open>flatten()\<close>; \<open>neighborhood\<close> reads the values there.
\<close>

definition neighborhood_positions :: "count matrix \<Rightarrow> int \<times> int \<Rightarrow> int \<Rightarrow> (nat \<times> nat) list" where
  "neighborhood_positions pHiCMatrix candidate pWindowSize =
     (let x_max = int (nrows pHiCMatrix);
          y_max = int (ncols pHiCMatrix);
          start_x = (if fst candidate - pWindowSize > 0 then fst candidate - pWindowSize else 0);
          end_x = (if fst candidate + pWindowSize < x_max then fst candidate + pWindowSize else x_max);
          start_y = (if snd candidate - pWindowSize > 0 then snd candidate - pWindowSize else 0);
          end_y = (if snd candidate + pWindowSize < y_max then snd candidate + pWindowSize else y_max)
      in concat (map (\<lambda>r. map (\<lambda>c. (r, c)) (slice_indices (ncols pHiCMatrix) start_y end_y))
                     (slice_indices (nrows pHiCMatrix) start_x end_x)))"

definition neighborhood :: "count matrix \<Rightarrow> int \<times> int \<Rightarrow> int \<Rightarrow> count list" where
  "neighborhood pHiCMatrix candidate pWindowSize =
     map (\<lambda>(r, c). dense pHiCMatrix r c) (neighborhood_positions pHiCMatrix candidate pWindowSize)"

text \<open>
  For comparison, the window as the specification words it (section 4.3, step 1): the
  positions with row in the inclusive range \<open>[x - w, x + w]\<close> and column in the inclusive
  range \<open>[y - w, y + w]\<close>, inside the matrix. This definition follows the specification,
  not the source.
\<close>

definition inclusive_window_positions :: "count matrix \<Rightarrow> int \<times> int \<Rightarrow> int \<Rightarrow> (nat \<times> nat) list" where
  "inclusive_window_positions M candidate w =
     List.product
       (filter (\<lambda>r. fst candidate - w \<le> int r \<and> int r \<le> fst candidate + w) [0 ..< nrows M])
       (filter (\<lambda>c. snd candidate - w \<le> int c \<and> int c \<le> snd candidate + w) [0 ..< ncols M])"

subsection \<open>The Mann-Whitney loop (lines 187--224)\<close>

text \<open>
  \<^verbatim>\<open>
  expected_neighborhood = np.random.uniform(low=np.min(neighborhood), high=np.max(neighborhood),
                                            size=len(neighborhood))
  neighborhood = np.nan_to_num(neighborhood)
  expected_neighborhood = np.nan_to_num(expected_neighborhood)
  try:
      test_result = mannwhitneyu(neighborhood, expected_neighborhood)
  except Exception:
      mask.append(False)
      continue
  pvalue = test_result[1]
  if np.isnan(pvalue):
      mask.append(False)
      continue
  if pvalue < pPValue:
      mask.append(True)
      pvalues.append(pvalue)
  else:
      mask.append(False)
  \<close>
  The synthetic sample is drawn from numpy's global random generator and the test is
  scipy's \<^verbatim>\<open>mannwhitneyu\<close>; neither is code of this file. What the two calls do in the
  \<open>i\<close>-th iteration, on the neighbourhood sample they are given, is a parameter \<open>mw\<close> of the
  model:
  \<^item> \<^verbatim>\<open>np.random.uniform\<close> raises (OverflowError, when the range from the minimum to the
    maximum is not finite, as for a sample with a NaN). The call stands before the
    \<^verbatim>\<open>try\<close>: nothing catches the exception;
  \<^item> \<^verbatim>\<open>mannwhitneyu\<close> raises, caught by \<^verbatim>\<open>except Exception\<close>;
  \<^item> \<^verbatim>\<open>mannwhitneyu\<close> returns a p-value, which is NaN or a number.

  \<^verbatim>\<open>np.min(neighborhood)\<close> stands before the \<^verbatim>\<open>try\<close> as well: on an empty sample it
  raises ValueError.
\<close>

datatype mw_result = MWUniformRaises | MWRaises | MWNaN | MWPvalue real

text \<open>One more element of the mask, and of the p-values when the candidate passed, in front
  of what the rest of the loop appends.\<close>

fun prepend :: "bool \<Rightarrow> real list \<Rightarrow> error + (bool list \<times> real list)
    \<Rightarrow> error + (bool list \<times> real list)" where
  "prepend b ps (Inl e) = Inl e"
| "prepend b ps (Inr (mask', pvalues)) = Inr (b # mask', ps @ pvalues)"

fun mw_loop :: "(nat \<Rightarrow> count list \<Rightarrow> mw_result) \<Rightarrow> count matrix \<Rightarrow> int \<Rightarrow> real \<Rightarrow> nat
    \<Rightarrow> (int \<times> int) list \<Rightarrow> error + (bool list \<times> real list)" where
  "mw_loop mw pHiCMatrix pWindowSize pPValue i [] = Inr ([], [])"
| "mw_loop mw pHiCMatrix pWindowSize pPValue i (candidate # rest) =
     (let nb = neighborhood pHiCMatrix candidate pWindowSize
      in if nb = [] then Inl ValueError
         else (case mw i nb of
                 MWUniformRaises \<Rightarrow> Inl OverflowError
               | MWRaises \<Rightarrow>
                   prepend False [] (mw_loop mw pHiCMatrix pWindowSize pPValue (Suc i) rest)
               | MWNaN \<Rightarrow>
                   prepend False [] (mw_loop mw pHiCMatrix pWindowSize pPValue (Suc i) rest)
               | MWPvalue pvalue \<Rightarrow>
                   (if pvalue < pPValue
                    then prepend True [pvalue] (mw_loop mw pHiCMatrix pWindowSize pPValue (Suc i) rest)
                    else prepend False [] (mw_loop mw pHiCMatrix pWindowSize pPValue (Suc i) rest))))"

subsection \<open>Keeping one candidate per cluster (lines 243--264)\<close>

text \<open>
  \<^verbatim>\<open>
  cluster_dict = {}
  for i, cluster in enumerate(clusters):
      if cluster == -1:
          mask.append(True)
          continue
      if cluster in cluster_dict:
          if pvalues[i] < cluster_dict[cluster][1]:
              mask[cluster_dict[cluster][0]] = False
              cluster_dict[cluster] = [i, pvalues[i]]
              mask.append(True)
          else:
              mask.append(False)
      else:
          cluster_dict[cluster] = [i, pvalues[i]]
          mask.append(True)
  \<close>
  The state of the loop is the mask and the dictionary; the loop runs over the labels paired
  with the p-values, \<open>i\<close> being the index of the head of the list.
\<close>

fun cluster_loop :: "nat \<Rightarrow> (int \<times> real) list \<Rightarrow> bool list \<Rightarrow> (int \<rightharpoonup> nat \<times> real) \<Rightarrow> bool list" where
  "cluster_loop i [] mask' cluster_dict = mask'"
| "cluster_loop i ((cluster, pvalue) # rest) mask' cluster_dict =
     (if cluster = - 1 then cluster_loop (Suc i) rest (mask' @ [True]) cluster_dict
      else (case cluster_dict cluster of
              Some (j, pj) \<Rightarrow>
                (if pvalue < pj
                 then cluster_loop (Suc i) rest (mask'[j := False] @ [True])
                        (cluster_dict(cluster \<mapsto> (i, pvalue)))
                 else cluster_loop (Suc i) rest (mask' @ [False]) cluster_dict)
            | None \<Rightarrow>
                cluster_loop (Suc i) rest (mask' @ [True]) (cluster_dict(cluster \<mapsto> (i, pvalue)))))"

definition cluster_mask :: "int list \<Rightarrow> real list \<Rightarrow> bool list" where
  "cluster_mask clusters pvalues = cluster_loop 0 (zip clusters pvalues) [] Map.empty"

text \<open>
  Two predicates for the proof about the loop, on the list \<open>xs\<close> of the labels paired with
  the p-values. \<open>cluster_best xs k\<close>: among the elements with the label of element \<open>k\<close>,
  element \<open>k\<close> has the lowest p-value and is the first with that p-value.
  \<open>cluster_inv xs msk d\<close> is the invariant of the loop after the elements \<open>xs\<close>: the
  dictionary holds, for every label seen, the best element so far, and the mask keeps the
  noise and the best elements.
\<close>

definition cluster_best :: "(int \<times> real) list \<Rightarrow> nat \<Rightarrow> bool" where
  "cluster_best xs k \<longleftrightarrow>
     k < length xs \<and>
     (\<forall>j<length xs. fst (xs ! j) = fst (xs ! k) \<longrightarrow>
        snd (xs ! k) < snd (xs ! j) \<or> (snd (xs ! k) = snd (xs ! j) \<and> k \<le> j))"

definition cluster_inv :: "(int \<times> real) list \<Rightarrow> bool list \<Rightarrow> (int \<rightharpoonup> nat \<times> real) \<Rightarrow> bool" where
  "cluster_inv xs msk d \<longleftrightarrow>
     length msk = length xs \<and>
     (\<forall>c. c \<noteq> - 1 \<longrightarrow>
        (case d c of
           None \<Rightarrow> (\<forall>j<length xs. fst (xs ! j) \<noteq> c)
         | Some (k, pk) \<Rightarrow> k < length xs \<and> fst (xs ! k) = c \<and> snd (xs ! k) = pk \<and> cluster_best xs k)) \<and>
     (\<forall>k<length xs. msk ! k = (fst (xs ! k) = - 1 \<or> cluster_best xs k))"

subsection \<open>Removing duplicates among the accepted candidates (lines 284--305)\<close>

text \<open>
  \<^verbatim>\<open>
  for i, candidate in enumerate(accepted_index):
      if candidate[0] > candidate[1]:
          _tmp = candidate[0]; candidate[0] = candidate[1]; candidate[1] = _tmp
  \<close>
\<close>

definition swap_candidate :: "int \<times> int \<Rightarrow> int \<times> int" where
  "swap_candidate candidate =
     (if fst candidate > snd candidate then (snd candidate, fst candidate) else candidate)"

text \<open>
  \<^verbatim>\<open>
  for i, candidate in enumerate(accepted_index):
      if candidate[0] in duplicate_set_x and candidate[1] in duplicate_set_y:
          delete_index.append(i)
      else:
          duplicate_set_x.add(candidate[0])
          duplicate_set_y.add(candidate[1])
  \<close>
\<close>

fun duplicate_scan :: "nat \<Rightarrow> (int \<times> int) list \<Rightarrow> int set \<Rightarrow> int set \<Rightarrow> nat list" where
  "duplicate_scan i [] duplicate_set_x duplicate_set_y = []"
| "duplicate_scan i (candidate # rest) duplicate_set_x duplicate_set_y =
     (if fst candidate \<in> duplicate_set_x \<and> snd candidate \<in> duplicate_set_y
      then i # duplicate_scan (Suc i) rest duplicate_set_x duplicate_set_y
      else duplicate_scan (Suc i) rest
             (insert (fst candidate) duplicate_set_x) (insert (snd candidate) duplicate_set_y))"

text \<open>\<^verbatim>\<open>np.delete(xs, delete_index, axis=0)\<close>: the rows whose index is not listed. (With
  no duplicate, \<^verbatim>\<open>delete_index\<close> is an empty array of floats; the numpy releases of the time
  of the source, before 1.19, accept it with a warning and delete nothing.)\<close>

definition np_delete :: "'a list \<Rightarrow> nat list \<Rightarrow> 'a list" where
  "np_delete xs delete_index =
     map snd (filter (\<lambda>ix. fst ix \<notin> set delete_index) (enumerate 0 xs))"

definition remove_duplicates :: "((int \<times> int) \<times> real) list \<Rightarrow> ((int \<times> int) \<times> real) list" where
  "remove_duplicates accepted =
     (let swapped = map (\<lambda>cp. (swap_candidate (fst cp), snd cp)) accepted;
          delete_index = duplicate_scan 0 (map fst swapped) {} {}
      in np_delete swapped delete_index)"

subsection \<open>candidate\_uniform\_distribution\_test (lines 171--307)\<close>

text \<open>
  Between the two loops the source calls scikit-learn:
  \<^verbatim>\<open>
  pCandidates = np.array(pCandidates)
  pCandidates = pCandidates[mask]
  distances = euclidean_distances(pCandidates)
  clusters = dbscan(X=distances, eps=pWindowSize, metric='precomputed', min_samples=2, n_jobs=-1)[1]
  \<close>
  \<^item> Indexing the array of an empty candidate list with the empty (float) mask raises
    IndexError.
  \<^item> \<^verbatim>\<open>euclidean_distances\<close> validates its input and raises ValueError on an array with
    no row (scikit-learn's \<^verbatim>\<open>check_array\<close> asks for one sample at least).
  \<^item> The labels that \<^verbatim>\<open>dbscan\<close> returns for the surviving candidates are a parameter
    \<open>dbscan\<close> of the model. scikit-learn returns one label per candidate; were the lists
    of different lengths, the boolean indexing after the cluster loop would raise IndexError.

  \<open>candidates_before_fdr\<close> is the function up to line 264: the candidates that passed the
  test and the choice of one candidate per cluster, each with its p-value.
\<close>

definition candidates_before_fdr ::
  "(nat \<Rightarrow> count list \<Rightarrow> mw_result) \<Rightarrow> ((int \<times> int) list \<Rightarrow> int \<Rightarrow> int list) \<Rightarrow> count matrix
    \<Rightarrow> (int \<times> int) list \<Rightarrow> int \<Rightarrow> real \<Rightarrow> error + ((int \<times> int) \<times> real) list" where
  "candidates_before_fdr mw dbscan pHiCMatrix pCandidates pWindowSize pPValue =
     (case mw_loop mw pHiCMatrix pWindowSize pPValue 0 pCandidates of
        Inl e \<Rightarrow> Inl e
      | Inr (mask', pvalues) \<Rightarrow>
          if pCandidates = [] then Inl IndexError
          else
            let pCandidates' = select pCandidates mask'
            in if pCandidates' = [] then Inl ValueError
               else
                 let clusters = dbscan pCandidates' pWindowSize
                 in if length clusters \<noteq> length pCandidates' then Inl IndexError
                    else Inr (select (zip pCandidates' pvalues) (cluster_mask clusters pvalues)))"

text \<open>
  \<^verbatim>\<open>
  if len(accepted_index) == 0:
      log.info('No loops detected.')
      return None, None
  \<close>
  The result \<open>None\<close> is the pair \<^verbatim>\<open>(None, None)\<close> of the source.
\<close>

definition candidate_uniform_distribution_test ::
  "(nat \<Rightarrow> count list \<Rightarrow> mw_result) \<Rightarrow> ((int \<times> int) list \<Rightarrow> int \<Rightarrow> int list) \<Rightarrow> count matrix
    \<Rightarrow> (int \<times> int) list \<Rightarrow> int \<Rightarrow> real \<Rightarrow> real \<Rightarrow> error + ((int \<times> int) \<times> real) list option" where
  "candidate_uniform_distribution_test mw dbscan pHiCMatrix pCandidates pWindowSize pPValue pQValue =
     (case candidates_before_fdr mw dbscan pHiCMatrix pCandidates pWindowSize pPValue of
        Inl e \<Rightarrow> Inl e
      | Inr cps \<Rightarrow>
          let accepted = fdr_accept pQValue cps
          in if accepted = [] then Inr None else Inr (Some (remove_duplicates accepted)))"


subsection \<open>compute\_zscore\_matrix (lines 93--131)\<close>

definition distance :: "nat \<times> nat \<Rightarrow> nat" where
  "distance pos = nat \<bar>int (fst pos) - int (snd pos)\<bar>"

text \<open>
  \<^verbatim>\<open>
  def _sum_per_distance(pSum_per_distance, pData, pDistances, pN):
      distance_count = np.zeros(len(pSum_per_distance))
      for i in range(pN):
          pSum_per_distance[pDistances[i]] += pData[i]
          distance_count[pDistances[i]] += 1
      return pSum_per_distance, distance_count
  \<close>
  The loop runs over the distances paired with the data. The caller checks that every
  distance is an index of the arrays (else the first update raises IndexError).
\<close>

fun sum_per_distance_loop :: "real list \<Rightarrow> nat list \<Rightarrow> (nat \<times> real) list \<Rightarrow> real list \<times> nat list" where
  "sum_per_distance_loop pSum_per_distance distance_count [] = (pSum_per_distance, distance_count)"
| "sum_per_distance_loop pSum_per_distance distance_count ((d, x) # rest) =
     sum_per_distance_loop (pSum_per_distance[d := pSum_per_distance ! d + x])
       (distance_count[d := distance_count ! d + 1]) rest"

text \<open>
  \<^verbatim>\<open>
  for i in range(len(instances)):
      sigma_2[distances[i]] += np.square(data[i] - mean_adjusted[distances[i]])
  \<close>
\<close>

fun sigma_2_loop :: "fval list \<Rightarrow> fval list \<Rightarrow> (nat \<times> real) list \<Rightarrow> fval list" where
  "sigma_2_loop mean_adjusted sigma_2 [] = sigma_2"
| "sigma_2_loop mean_adjusted sigma_2 ((d, x) # rest) =
     sigma_2_loop mean_adjusted
       (sigma_2[d := fadd (sigma_2 ! d) (fsquare (fsub (Num x) (mean_adjusted ! d)))]) rest"

text \<open>
  \<^verbatim>\<open>
  instances, features = pMatrix.nonzero()
  pMatrix.data = pMatrix.data.astype(float)
  data = deepcopy(pMatrix.data)
  distances = np.absolute(instances - features)
  sigma_2 = np.zeros(pMatrix.shape[0])
  sum_per_distance = np.ones(pMatrix.shape[0])
  np.nan_to_num(data, copy=False)
  sum_per_distance, distance_count = _sum_per_distance(sum_per_distance, data, distances, len(instances))
  mean_adjusted = sum_per_distance / distance_count
  for i in range(len(instances)): ...
  sigma_2 /= distance_count
  sigma = np.sqrt(sigma_2)
  for i in range(len(instances)):
      data[i] = (pMatrix.data[i] - mean_adjusted[distances[i]]) / sigma[distances[i]]
  return csr_matrix((data, (instances, features)), shape=(pMatrix.shape[0], pMatrix.shape[1]))
  \<close>
  \<^item> The arrays indexed by distance have \<^verbatim>\<open>pMatrix.shape[0]\<close> elements: a distance beyond
    them (in a matrix with more columns than rows) raises IndexError in the first loop.
  \<^item> \<^verbatim>\<open>nonzero()\<close> leaves out a stored zero, \<^verbatim>\<open>pMatrix.data\<close> does not: with a stored
    zero the data are longer than the index arrays and the constructor of the result raises
    ValueError (row, column and data arrays must have the same length).
  \<^item> \<^verbatim>\<open>nan_to_num\<close> changes the copy \<^verbatim>\<open>data\<close>; the last loop reads \<^verbatim>\<open>pMatrix.data\<close>.
\<close>

definition compute_zscore_matrix :: "count matrix \<Rightarrow> error + fval matrix" where
  "compute_zscore_matrix pMatrix =
     (let positions = nonzero (Count 0) pMatrix;
          n = nrows pMatrix;
          data = map nan_to_num (data_of pMatrix);
          distances = map distance positions
      in if list_ex (\<lambda>d. d \<ge> n) distances then Inl IndexError
         else if length positions \<noteq> length (data_of pMatrix) then Inl ValueError
         else
           let (sum_per_distance, distance_count) =
                 sum_per_distance_loop (replicate n 1) (replicate n 0) (zip distances data);
               mean_adjusted =
                 map (\<lambda>(s, c). fdiv (Num s) (Num (real c))) (zip sum_per_distance distance_count);
               sigma_2 = sigma_2_loop mean_adjusted (replicate n (Num 0)) (zip distances data);
               sigma_2' = map (\<lambda>(s, c). fdiv s (Num (real c))) (zip sigma_2 distance_count);
               sigma = map fsqrt sigma_2';
               zdata = map (\<lambda>(d, v). fdiv (fsub (of_count v) (mean_adjusted ! d)) (sigma ! d))
                         (zip distances (data_of pMatrix))
           in Inr \<lparr>nrows = nrows pMatrix, ncols = ncols pMatrix, entries = zip positions zdata\<rparr>)"

text \<open>
  The quantities that the function computes for a distance \<open>d\<close>, as closed expressions over
  the list of the distances paired with the data after \<^verbatim>\<open>nan_to_num\<close>: the number of
  elements at the distance, their sum, the adjusted mean \<open>(1 + sum) / count\<close> (the sums start
  at 1), the sum of the squared deviations from it, and \<open>sigma\<close>.
\<close>

definition sum_at :: "(nat \<times> real) list \<Rightarrow> nat \<Rightarrow> real" where
  "sum_at ps d = sum_list (map snd (filter (\<lambda>q. fst q = d) ps))"

definition count_at :: "(nat \<times> real) list \<Rightarrow> nat \<Rightarrow> nat" where
  "count_at ps d = length (filter (\<lambda>q. fst q = d) ps)"

definition sqdev_at :: "(nat \<times> real) list \<Rightarrow> nat \<Rightarrow> real \<Rightarrow> real" where
  "sqdev_at ps d mu = sum_list (map (\<lambda>q. (snd q - mu) * (snd q - mu)) (filter (\<lambda>q. fst q = d) ps))"

definition mean_adjusted_at :: "(nat \<times> real) list \<Rightarrow> nat \<Rightarrow> real" where
  "mean_adjusted_at ps d = (1 + sum_at ps d) / real (count_at ps d)"

definition sigma_at :: "(nat \<times> real) list \<Rightarrow> nat \<Rightarrow> real" where
  "sigma_at ps d = sqrt (sqdev_at ps d (mean_adjusted_at ps d) / real (count_at ps d))"

definition distance_data :: "count matrix \<Rightarrow> (nat \<times> real) list" where
  "distance_data M = map (\<lambda>e. (distance (fst e), nan_to_num (snd e))) (entries M)"

text \<open>
  The statistics that the specification asks of the result (section 8): the z-scores stored
  at a distance (the finite ones), and the mean and the variance of a list of numbers.
\<close>

fun finite_values :: "fval list \<Rightarrow> real list" where
  "finite_values [] = []"
| "finite_values (Num a # vs) = a # finite_values vs"
| "finite_values (_ # vs) = finite_values vs"

definition zscores_at :: "fval matrix \<Rightarrow> nat \<Rightarrow> real list" where
  "zscores_at Z d = finite_values (map snd (filter (\<lambda>e. distance (fst e) = d) (entries Z)))"

definition mean_of :: "real list \<Rightarrow> real" where
  "mean_of xs = sum_list xs / real (length xs)"

definition variance_of :: "real list \<Rightarrow> real" where
  "variance_of xs = sum_list (map (\<lambda>x. (x - mean_of xs)\<^sup>2) xs) / real (length xs)"

subsection \<open>compute\_long\_range\_contacts (lines 134--167)\<close>

text \<open>
  \<^verbatim>\<open>
  zscore_matrix = pZscoreMatrix
  zscore_matrix.eliminate_zeros()
  instances, features = zscore_matrix.nonzero()
  data = zscore_matrix.data.astype(float)
  mask = data >= pZscoreThreshold
  mask_interactions = pHiCMatrix.matrix.data > pPeakInteractionsThreshold
  mask = np.logical_and(mask, mask_interactions)
  data = data[mask]
  instances = instances[mask]
  features = features[mask]
  \<close>
  \<open>screen\<close> is the function up to line 158: the candidates, or the exception raised.
\<close>

definition screen :: "count matrix \<Rightarrow> fval matrix \<Rightarrow> real \<Rightarrow> real \<Rightarrow> error + (int \<times> int) list" where
  "screen pHiCMatrix pZscoreMatrix pZscoreThreshold pPeakInteractionsThreshold =
     (let zscore_matrix = eliminate_zeros (Num 0) pZscoreMatrix;
          positions = nonzero (Num 0) zscore_matrix;
          data = data_of zscore_matrix;
          mask' = map (\<lambda>v. fge v pZscoreThreshold) data;
          mask_interactions = map (\<lambda>v. cgt v pPeakInteractionsThreshold) (data_of pHiCMatrix)
      in case logical_and mask' mask_interactions of
           Inl e \<Rightarrow> Inl e
         | Inr mask'' \<Rightarrow>
             (case mask_index data mask'' of
                Inl e \<Rightarrow> Inl e
              | Inr data' \<Rightarrow>
                  (case mask_index positions mask'' of
                     Inl e \<Rightarrow> Inl e
                   | Inr selected \<Rightarrow> Inr (map (\<lambda>(r, c). (int r, int c)) selected))))"

text \<open>
  \<^verbatim>\<open>
  if len(features) == 0:
      log.info('No loops detected.')
      return None, None
  candidates = [*zip(instances, features)]
  candidates, pValueList = candidate_uniform_distribution_test(
      pHiCMatrix, candidates, pWindowSize, pPValue, pQValue)
  return candidates, pValueList
  \<close>
\<close>

definition compute_long_range_contacts ::
  "(nat \<Rightarrow> count list \<Rightarrow> mw_result) \<Rightarrow> ((int \<times> int) list \<Rightarrow> int \<Rightarrow> int list) \<Rightarrow> count matrix
    \<Rightarrow> fval matrix \<Rightarrow> real \<Rightarrow> int \<Rightarrow> real \<Rightarrow> real \<Rightarrow> real
    \<Rightarrow> error + ((int \<times> int) \<times> real) list option" where
  "compute_long_range_contacts mw dbscan pHiCMatrix pZscoreMatrix pZscoreThreshold pWindowSize
       pPValue pQValue pPeakInteractionsThreshold =
     (case screen pHiCMatrix pZscoreMatrix pZscoreThreshold pPeakInteractionsThreshold of
        Inl e \<Rightarrow> Inl e
      | Inr candidates \<Rightarrow>
          if candidates = [] then Inr None
          else candidate_uniform_distribution_test mw dbscan pHiCMatrix candidates pWindowSize
                 pPValue pQValue)"

text \<open>
  \<^verbatim>\<open>
  z_score_matrix = compute_zscore_matrix(pHiCMatrix.matrix)
  candidates, pValueList = compute_long_range_contacts(pHiCMatrix, z_score_matrix, ...)
  if candidates is None:
      return None
  \<close>
  \<open>compute_loops\<close> is the pipeline of one chromosome up to the accepted candidates, when
  no file name for the z-score matrix is given (the mapping of bins to genomic positions is
  the matrix object's).
\<close>

definition compute_loops ::
  "(nat \<Rightarrow> count list \<Rightarrow> mw_result) \<Rightarrow> ((int \<times> int) list \<Rightarrow> int \<Rightarrow> int list) \<Rightarrow> count matrix
    \<Rightarrow> real \<Rightarrow> int \<Rightarrow> real \<Rightarrow> real \<Rightarrow> real \<Rightarrow> error + ((int \<times> int) \<times> real) list option" where
  "compute_loops mw dbscan pHiCMatrix zScoreThreshold windowSize pValue qValue
       peakInteractionsThreshold =
     (case compute_zscore_matrix pHiCMatrix of
        Inl e \<Rightarrow> Inl e
      | Inr z_score_matrix \<Rightarrow>
          compute_long_range_contacts mw dbscan pHiCMatrix z_score_matrix zScoreThreshold
            windowSize pValue qValue peakInteractionsThreshold)"

section \<open>Properties\<close>

subsection \<open>The FDR step\<close>

lemma largest_p_loop_last:
  "sorted ps \<Longrightarrow> (case L of None \<Rightarrow> True | Some l \<Rightarrow> list_all (\<lambda>p. l \<le> p) ps) \<Longrightarrow>
   largest_p_loop q m i ps L =
     (let sat = map snd (filter (\<lambda>jp. snd jp \<le> q * real (fst jp + 1) / real m) (enumerate i ps))
      in if sat = [] then L else Some (last sat))"
proof (induction ps arbitrary: i L)
  case Nil
  then show ?case by simp
next
  case (Cons p ps)
  have sp: "sorted ps" and le: "list_all (\<lambda>x. p \<le> x) ps"
    using Cons.prems(1) by (auto simp: list_all_iff)
  show ?case
  proof (cases "p \<le> q * real (i + 1) / real m")
    case True
    have g: "ge_largest p L" using Cons.prems(2) by (cases L) auto
    have "largest_p_loop q m (Suc i) ps (Some p) =
      (let sat = map snd (filter (\<lambda>jp. snd jp \<le> q * real (fst jp + 1) / real m) (enumerate (Suc i) ps))
      in if sat = [] then Some p else Some (last sat))"
      by (rule Cons.IH[OF sp]) (simp add: le)
    then show ?thesis using True g by (simp add: Let_def)
  next
    case False
    have "(case L of None \<Rightarrow> True | Some l \<Rightarrow> list_all (\<lambda>p. l \<le> p) ps)"
      using Cons.prems(2) by (cases L) auto
    from Cons.IH[OF sp this, of "Suc i"] show ?thesis using False by (simp add: Let_def)
  qed
qed

lemma sorted_last_Max: "sorted xs \<Longrightarrow> xs \<noteq> [] \<Longrightarrow> last xs = Max (set xs)"
proof (induction xs)
  case Nil
  then show ?case by simp
next
  case (Cons x xs)
  show ?case
  proof (cases "xs = []")
    case True
    then show ?thesis by simp
  next
    case False
    then have "last xs = Max (set xs)" using Cons by simp
    moreover have "x \<le> Max (set xs)"
      using Cons.prems(1) False by (metis List.finite_set Max_ge last_in_set calculation order_refl sorted_simps(2))
    ultimately show ?thesis using False by (simp add: max_def)
  qed
qed

lemma filter_enumerate_upt:
  "filter P (enumerate 0 xs) = map (\<lambda>j. (j, xs ! j)) (filter (\<lambda>j. P (j, xs ! j)) [0..<length xs])"
proof -
  have "enumerate 0 xs = map (\<lambda>j. (j, xs ! j)) [0..<length xs]"
    by (rule nth_equalityI) (simp_all add: nth_enumerate_eq)
  then show ?thesis by (simp add: filter_map comp_def)
qed

lemma largest_p_i_char:
  fixes q :: real and ps :: "real list"
  defines "sp \<equiv> sort ps"
  defines "J \<equiv> {j. j < length ps \<and> sp ! j \<le> q * real (j + 1) / real (length ps)}"
  shows "largest_p_i q ps = (if J = {} then None else Some (sp ! Max J))"
proof -
  let ?m = "length ps"
  let ?P = "\<lambda>j. sp ! j \<le> q * real (j + 1) / real ?m"
  let ?js = "filter ?P [0..<?m]"
  have len: "length sp = ?m" by (simp add: sp_def)
  have setjs: "set ?js = J" by (auto simp: J_def)
  have "largest_p_i q ps =
     (let sat = map snd (filter (\<lambda>jp. snd jp \<le> q * real (fst jp + 1) / real ?m) (enumerate 0 sp))
      in if sat = [] then None else Some (last sat))"
    unfolding largest_p_i_def Let_def sp_def[symmetric] len
    using largest_p_loop_last[of sp None q ?m 0] by (simp add: sp_def Let_def)
  also have "map snd (filter (\<lambda>jp. snd jp \<le> q * real (fst jp + 1) / real ?m) (enumerate 0 sp))
     = map (\<lambda>j. sp ! j) ?js"
    by (simp add: filter_enumerate_upt len comp_def)
  finally have eq: "largest_p_i q ps = (if ?js = [] then None else Some (last (map (\<lambda>j. sp ! j) ?js)))"
    by (simp add: Let_def)
  show ?thesis
  proof (cases "J = {}")
    case True
    then have "?js = []" using setjs by (metis (no_types, lifting) set_empty)
    then show ?thesis using eq True by simp
  next
    case False
    have ne: "?js \<noteq> []"
    proof
      assume a: "?js = []"
      have "set ?js = {}" unfolding a by simp
      then show False using setjs False by (simp only:)
    qed
    have "sorted ?js" by (simp add: sorted_wrt_filter)
    then have "last ?js = Max J" using sorted_last_Max[OF _ ne] setjs by simp
    moreover have "largest_p_i q ps = Some (last (map (\<lambda>j. sp ! j) ?js))"
      using eq ne by (simp only: if_False)
    moreover have "last (map (\<lambda>j. sp ! j) ?js) = sp ! last ?js" using ne by (rule last_map)
    ultimately show ?thesis using False by (simp only: if_False)
  qed
qed

lemma largest_p_i_in_set: "largest_p_i q ps = Some t \<Longrightarrow> t \<in> set ps"
proof -
  assume a: "largest_p_i q ps = Some t"
  let ?J = "{j. j < length ps \<and> sort ps ! j \<le> q * real (j + 1) / real (length ps)}"
  have ne: "?J \<noteq> {}" and t: "t = sort ps ! Max ?J"
    using a largest_p_i_char[of q ps] by (auto split: if_splits)
  have "finite ?J" by simp
  then have "Max ?J \<in> ?J" using ne by (rule Max_in)
  then have "Max ?J < length (sort ps)" by simp
  then have "sort ps ! Max ?J \<in> set (sort ps)" by (rule nth_mem)
  then show ?thesis using t by simp
qed

text \<open>
  Claim C3. With \<open>p\<^sub>(\<^sub>1\<^sub>) \<le> \<dots> \<le> p\<^sub>(\<^sub>m\<^sub>)\<close> the sorted p-values (\<open>sp ! j\<close> is \<open>p\<^sub>(\<^sub>j\<^sub>+\<^sub>1\<^sub>)\<close>) and \<open>J\<close> the set
  of the indices with \<open>p\<^sub>(\<^sub>i\<^sub>) \<le> q \<cdot> i / m\<close>: the threshold \<open>largest_p_i\<close> is the p-value at
  the largest index of \<open>J\<close>, which is the largest p-value that satisfies the condition; the
  accepted candidates are exactly those whose p-value is strictly below the threshold (a
  candidate whose p-value equals it is not accepted); and when \<open>J\<close> is empty the threshold
  stays \<open>-inf\<close> and no candidate is accepted.
\<close>

theorem fdr_threshold_and_acceptance:
  "let ps = map snd cps; sp = sort ps; m = length ps;
       J = {j. j < m \<and> sp ! j \<le> pQValue * real (j + 1) / real m}
   in largest_p_i pQValue ps = (if J = {} then None else Some (sp ! Max J))
      \<and> (J \<noteq> {} \<longrightarrow> sp ! Max J = Max ((\<lambda>j. sp ! j) ` J))
      \<and> fdr_accept pQValue cps = (if J = {} then [] else filter (\<lambda>cp. snd cp < sp ! Max J) cps)"
proof -
  define ps where "ps = map snd cps"
  define sp where "sp = sort ps"
  define J where "J = {j. j < length ps \<and> sp ! j \<le> pQValue * real (j + 1) / real (length ps)}"
  have c1: "largest_p_i pQValue ps = (if J = {} then None else Some (sp ! Max J))"
    unfolding J_def sp_def by (rule largest_p_i_char)
  have fin: "finite J" unfolding J_def by simp
  have len: "\<And>j. j \<in> J \<Longrightarrow> j < length sp" unfolding J_def sp_def by simp
  have srt: "sorted sp" unfolding sp_def by simp
  have c2: "sp ! Max J = Max ((\<lambda>j. sp ! j) ` J)" if ne: "J \<noteq> {}"
  proof -
    have mx: "Max J \<in> J" using fin ne by (rule Max_in)
    have "\<And>y. y \<in> (\<lambda>j. sp ! j) ` J \<Longrightarrow> y \<le> sp ! Max J"
    proof -
      fix y assume "y \<in> (\<lambda>j. sp ! j) ` J"
      then obtain j where j: "j \<in> J" and y: "y = sp ! j" by blast
      have "j \<le> Max J" using fin j by (rule Max_ge)
      then have "sp ! j \<le> sp ! Max J"
        using sorted_nth_mono[OF srt, of j "Max J"] len[OF mx] by simp
      then show "y \<le> sp ! Max J" using y by simp
    qed
    moreover have "sp ! Max J \<in> (\<lambda>j. sp ! j) ` J" using mx by (rule imageI)
    ultimately show ?thesis using fin by (intro Max_eqI[symmetric]) auto
  qed
  have acc: "fdr_accept pQValue cps = filter (\<lambda>cp. lt_largest (snd cp) (largest_p_i pQValue ps)) cps"
    by (simp add: fdr_accept_def ps_def)
  have c3: "fdr_accept pQValue cps = (if J = {} then [] else filter (\<lambda>cp. snd cp < sp ! Max J) cps)"
    unfolding acc c1 by simp
  have "largest_p_i pQValue ps = (if J = {} then None else Some (sp ! Max J))
      \<and> (J \<noteq> {} \<longrightarrow> sp ! Max J = Max ((\<lambda>j. sp ! j) ` J))
      \<and> fdr_accept pQValue cps = (if J = {} then [] else filter (\<lambda>cp. snd cp < sp ! Max J) cps)"
    using c1 c2 c3 by blast
  then show ?thesis unfolding Let_def J_def sp_def ps_def .
qed

theorem fdr_threshold_and_acceptance_witness:
  "largest_p_i (1/20) (map snd [((1::int, 10::int), 1/100 :: real), ((3, 20), 1/50)]) = Some (1/50)
   \<and> fdr_accept (1/20) [((1, 10), 1/100), ((3, 20), 1/50)] = [((1, 10), 1/100)]"
proof -
  define cps where "cps = [((1::int, 10::int), 1/100 :: real), ((3, 20), 1/50)]"
  define sp where "sp = sort (map snd cps)"
  define J where "J = {j. j < length (map snd cps) \<and> sp ! j \<le> (1/20) * real (j + 1) / real (length (map snd cps))}"
  have sp: "sp = [1/100, 1/50]" by (simp add: sp_def cps_def)
  have J: "J = {0, 1}"
    unfolding J_def sp by (auto simp: cps_def less_Suc_eq numeral_2_eq_2)
  have mx: "Max J = 1" and ne: "J \<noteq> {}" unfolding J by simp_all
  have t: "largest_p_i (1/20) (map snd cps) = (if J = {} then None else Some (sp ! Max J))
      \<and> (J \<noteq> {} \<longrightarrow> sp ! Max J = Max ((\<lambda>j. sp ! j) ` J))
      \<and> fdr_accept (1/20) cps = (if J = {} then [] else filter (\<lambda>cp. snd cp < sp ! Max J) cps)"
    using fdr_threshold_and_acceptance[of cps "1/20"] unfolding Let_def J_def sp_def .
  have "largest_p_i (1/20) (map snd cps) = Some (1/50)"
    using t ne by (simp add: mx sp)
  moreover have "fdr_accept (1/20) cps = filter (\<lambda>cp. snd cp < 1/50) cps"
    using t ne by (simp add: mx sp)
  ultimately show ?thesis by (simp add: cps_def)
qed

subsection \<open>Screening\<close>

lemma fge_mono: "t1 \<le> t2 \<Longrightarrow> fge v t2 \<Longrightarrow> fge v t1"
  by (cases v) auto

lemma select_Cons: "select (x # xs) (b # bs) = (if b then x # select xs bs else select xs bs)"
  by (simp add: select_def)

lemma select_Nil [simp]: "select [] bs = []" "select xs [] = []"
  by (simp_all add: select_def)

lemma select_subseq:
  "list_all2 (\<lambda>b2 b1. b2 \<longrightarrow> b1) m2 m1 \<Longrightarrow> subseq (select xs m2) (select xs m1)"
proof (induction m2 m1 arbitrary: xs rule: list_all2_induct)
  case Nil
  then show ?case by simp
next
  case (Cons b2 m2 b1 m1)
  show ?case
  proof (cases xs)
    case Nil
    then show ?thesis by simp
  next
    case (Cons x xs')
    then show ?thesis using Cons.hyps(1) Cons.IH[of xs'] by (auto simp: select_Cons)
  qed
qed

lemma logical_and_mono:
  assumes "list_all2 (\<lambda>b2 b1. b2 \<longrightarrow> b1) a2 a1"
  shows "case logical_and a1 b of Inl e \<Rightarrow> logical_and a2 b = Inl e
         | Inr m1 \<Rightarrow> (\<exists>m2. logical_and a2 b = Inr m2 \<and> list_all2 (\<lambda>b2 b1. b2 \<longrightarrow> b1) m2 m1)"
proof -
  have len: "length a2 = length a1" using assms by (rule list_all2_lengthD)
  have nth: "\<And>i. i < length a1 \<Longrightarrow> a2 ! i \<longrightarrow> a1 ! i"
    using assms by (simp add: list_all2_conv_all_nth)
  have hd: "length a1 = 1 \<Longrightarrow> hd a2 \<longrightarrow> hd a1"
    using nth[of 0] len by (cases a1; cases a2) auto
  show ?thesis
    unfolding logical_and_def len
    using nth hd len by (auto simp: list_all2_conv_all_nth)
qed

text \<open>
  Claim C9. For thresholds \<open>t1 \<le> t2\<close> on the same matrices and the same interaction
  threshold: when the screening at \<open>t1\<close> raises, the screening at \<open>t2\<close> raises the same
  exception; otherwise the candidates at \<open>t2\<close> are a subsequence of the candidates at \<open>t1\<close>,
  hence a subset of them and not more of them.
\<close>

theorem screen_monotone:
  assumes "t1 \<le> t2"
  shows "case screen pHiCMatrix pZscoreMatrix t1 pit of
           Inl e \<Rightarrow> screen pHiCMatrix pZscoreMatrix t2 pit = Inl e
         | Inr c1 \<Rightarrow> (\<exists>c2. screen pHiCMatrix pZscoreMatrix t2 pit = Inr c2
                        \<and> subseq c2 c1 \<and> set c2 \<subseteq> set c1 \<and> length c2 \<le> length c1)"
proof -
  define data where "data = data_of (eliminate_zeros (Num 0) pZscoreMatrix)"
  define positions where "positions = nonzero (Num 0) (eliminate_zeros (Num 0) pZscoreMatrix)"
  define mi where "mi = map (\<lambda>v. cgt v pit) (data_of pHiCMatrix)"
  define a1 where "a1 = map (\<lambda>v. fge v t1) data"
  define a2 where "a2 = map (\<lambda>v. fge v t2) data"
  have s1: "screen pHiCMatrix pZscoreMatrix t1 pit =
    (case logical_and a1 mi of Inl e \<Rightarrow> Inl e
     | Inr m \<Rightarrow> (case mask_index data m of Inl e \<Rightarrow> Inl e
         | Inr d \<Rightarrow> (case mask_index positions m of Inl e \<Rightarrow> Inl e
            | Inr selected \<Rightarrow> Inr (map (\<lambda>(r, c). (int r, int c)) selected))))"
    unfolding screen_def Let_def data_def positions_def mi_def a1_def by (rule refl)
  have s2: "screen pHiCMatrix pZscoreMatrix t2 pit =
    (case logical_and a2 mi of Inl e \<Rightarrow> Inl e
     | Inr m \<Rightarrow> (case mask_index data m of Inl e \<Rightarrow> Inl e
         | Inr d \<Rightarrow> (case mask_index positions m of Inl e \<Rightarrow> Inl e
            | Inr selected \<Rightarrow> Inr (map (\<lambda>(r, c). (int r, int c)) selected))))"
    unfolding screen_def Let_def data_def positions_def mi_def a2_def by (rule refl)
  have a: "list_all2 (\<lambda>b2 b1. b2 \<longrightarrow> b1) a2 a1"
    unfolding a1_def a2_def using fge_mono[OF assms]
    by (simp add: list_all2_conv_all_nth)
  show ?thesis
  proof (cases "logical_and a1 mi")
    case (Inl e)
    then have "logical_and a2 mi = Inl e" using logical_and_mono[OF a, of mi] by simp
    then show ?thesis using Inl s1 s2 by simp
  next
    case (Inr m1)
    then obtain m2 where m2: "logical_and a2 mi = Inr m2"
      and le: "list_all2 (\<lambda>b2 b1. b2 \<longrightarrow> b1) m2 m1"
      using logical_and_mono[OF a, of mi] by auto
    have len: "length m2 = length m1" using le by (rule list_all2_lengthD)
    have sub: "subseq (select positions m2) (select positions m1)"
      using le by (rule select_subseq)
    let ?f = "\<lambda>(r, c). (int r, int c)"
    have sub': "subseq (map ?f (select positions m2)) (map ?f (select positions m1))"
      using sub by (rule subseq_map)
    have st: "set (map ?f (select positions m2)) \<subseteq> set (map ?f (select positions m1))"
    proof
      fix x assume "x \<in> set (map ?f (select positions m2))"
      then show "x \<in> set (map ?f (select positions m1))"
        using list_emb_set[OF sub', of x] by blast
    qed
    have ln: "length (map ?f (select positions m2)) \<le> length (map ?f (select positions m1))"
      using sub' by (rule list_emb_length)
    show ?thesis
    proof (cases "length m1 = length data")
      case True
      have lp: "length positions = length data"
        by (simp add: positions_def data_def nonzero_def data_of_def eliminate_zeros_def)
      have r1: "screen pHiCMatrix pZscoreMatrix t1 pit = Inr (map ?f (select positions m1))"
        using Inr True lp s1 by (simp add: mask_index_def)
      have r2: "screen pHiCMatrix pZscoreMatrix t2 pit = Inr (map ?f (select positions m2))"
        using m2 True lp len s2 by (simp add: mask_index_def)
      show ?thesis unfolding r1 r2 using sub' st ln by simp
    next
      case False
      have r1: "screen pHiCMatrix pZscoreMatrix t1 pit = Inl IndexError"
        using Inr False s1 by (simp add: mask_index_def)
      have r2: "screen pHiCMatrix pZscoreMatrix t2 pit = Inl IndexError"
        using m2 False len s2 by (simp add: mask_index_def)
      show ?thesis unfolding r1 r2 by simp
    qed
  qed
qed

theorem screen_monotone_witness:
  "(8::real) \<le> 9
   \<and> screen \<lparr>nrows = 3, ncols = 3, entries = [((0, 1), Count 20), ((0, 2), Count 30)]\<rparr>
        \<lparr>nrows = 3, ncols = 3, entries = [((0, 1), Num (17/2)), ((0, 2), Num 10)]\<rparr> 8 10
       = Inr [(0, 1), (0, 2)]
   \<and> screen \<lparr>nrows = 3, ncols = 3, entries = [((0, 1), Count 20), ((0, 2), Count 30)]\<rparr>
        \<lparr>nrows = 3, ncols = 3, entries = [((0, 1), Num (17/2)), ((0, 2), Num 10)]\<rparr> 9 10
       = Inr [(0, 2)]"
proof -
  define H :: "count matrix"
    where "H = \<lparr>nrows = 3, ncols = 3, entries = [((0, 1), Count 20), ((0, 2), Count 30)]\<rparr>"
  define Z :: "fval matrix"
    where "Z = \<lparr>nrows = 3, ncols = 3, entries = [((0, 1), Num (17/2)), ((0, 2), Num 10)]\<rparr>"
  have le: "(8::real) \<le> 9" by simp
  have e1: "screen H Z 8 10 = Inr [(0, 1), (0, 2)]"
    by (simp add: H_def Z_def screen_def eliminate_zeros_def nonzero_def data_of_def
        logical_and_def mask_index_def select_def)
  have "\<exists>c2. screen H Z 9 10 = Inr c2 \<and> subseq c2 [(0, 1), (0, 2)]"
    using screen_monotone[OF le, of H Z 10] unfolding e1 by auto
  moreover have "screen H Z 9 10 = Inr [(0, 2)]"
    by (simp add: H_def Z_def screen_def eliminate_zeros_def nonzero_def data_of_def
        logical_and_def mask_index_def select_def)
  ultimately show ?thesis using le e1 unfolding H_def Z_def by blast
qed

subsection \<open>The neighbourhood\<close>

lemma slice_indices_window:
  assumes "0 \<le> a" "0 \<le> w"
  shows "slice_indices n (if a - w > 0 then a - w else 0) (if a + w < int n then a + w else int n)
         = [nat (max 0 (a - w)) ..< nat (min (a + w) (int n))]"
proof -
  define s where "s = max 0 (a - w)"
  define e where "e = min (a + w) (int n)"
  have s: "(if a - w > 0 then a - w else 0) = s" and e: "(if a + w < int n then a + w else int n) = e"
    by (auto simp: s_def e_def)
  have e0: "0 \<le> e" "e \<le> int n" using assms by (auto simp: e_def)
  have s0: "0 \<le> s" by (auto simp: s_def)
  have be: "slice_bound n e = nat e" using e0 unfolding slice_bound_def by auto
  have bs: "slice_bound n s = min (nat s) n" using s0 unfolding slice_bound_def by auto
  have "[min (nat s) n ..< nat e] = [nat s ..< nat e]"
  proof (cases "nat s \<le> n")
    case True
    then show ?thesis by (simp add: min_def)
  next
    case False
    then have "nat e \<le> n" "n < nat s" using e0 by auto
    then show ?thesis by (simp add: min_def)
  qed
  then have "[min (nat s) n ..< nat e] = [nat (max 0 (a - w)) ..< nat (min (a + w) (int n))]"
    by (simp only: s_def e_def)
  then show ?thesis unfolding s e slice_indices_def be bs .
qed

lemma concat_map_Pair: "concat (map (\<lambda>r. map (\<lambda>c. (r, c)) cs) rs) = List.product rs cs"
  by (induction rs) simp_all

lemma neighborhood_positions_window:
  assumes "0 \<le> x" "0 \<le> y" "0 \<le> w"
  shows "neighborhood_positions M (x, y) w =
     List.product [nat (max 0 (x - w)) ..< nat (min (x + w) (int (nrows M)))]
                  [nat (max 0 (y - w)) ..< nat (min (y + w) (int (ncols M)))]"
  unfolding neighborhood_positions_def Let_def fst_conv snd_conv
    slice_indices_window[OF assms(1) assms(3)] slice_indices_window[OF assms(2) assms(3)]
  by (rule concat_map_Pair)

lemma window_range_iff:
  assumes "0 \<le> a" "0 \<le> w"
  shows "(nat (max 0 (a - w)) \<le> r \<and> r < nat (min (a + w) (int n)))
     \<longleftrightarrow> (a - w \<le> int r \<and> int r < a + w \<and> r < n)"
  using assms by (simp add: max_def min_def) linarith

lemma neighborhood_positions_set:
  assumes "0 \<le> x" "0 \<le> y" "0 \<le> w"
  shows "set (neighborhood_positions M (x, y) w) =
     {(r, c). x - w \<le> int r \<and> int r < x + w \<and> r < nrows M
            \<and> y - w \<le> int c \<and> int c < y + w \<and> c < ncols M}"
proof -
  have "set (neighborhood_positions M (x, y) w) =
     {(r, c). (nat (max 0 (x - w)) \<le> r \<and> r < nat (min (x + w) (int (nrows M))))
            \<and> (nat (max 0 (y - w)) \<le> c \<and> c < nat (min (y + w) (int (ncols M))))}"
    unfolding neighborhood_positions_window[OF assms] set_product by auto
  then show ?thesis
    unfolding window_range_iff[OF assms(1) assms(3)] window_range_iff[OF assms(2) assms(3)]
    by (simp only: conj_assoc)
qed

lemma neighborhood_positions_distinct:
  assumes "0 \<le> x" "0 \<le> y" "0 \<le> w"
  shows "distinct (neighborhood_positions M (x, y) w)"
  unfolding neighborhood_positions_window[OF assms]
  by (simp add: distinct_product)

lemma neighborhood_positions_length:
  assumes "0 \<le> x" "0 \<le> y" "0 \<le> w"
  shows "length (neighborhood_positions M (x, y) w) =
     (nat (min (x + w) (int (nrows M))) - nat (max 0 (x - w)))
     * (nat (min (y + w) (int (ncols M))) - nat (max 0 (y - w)))"
  unfolding neighborhood_positions_window[OF assms] by simp

text \<open>
  Claim C6, as amended. For a candidate \<open>(x, y)\<close> with \<open>0 \<le> x\<close>, \<open>0 \<le> y\<close> and a window size
  \<open>0 \<le> w\<close>, the sample is read at the positions with row in the half-open range from
  \<open>max 0 (x - w)\<close> up to, and without, \<open>min (x + w) x_max\<close> and column in the half-open range from
  \<open>max 0 (y - w)\<close> up to, and without, \<open>min (y + w) y_max\<close>, each position once, in row-major
  order: row \<open>x + w\<close> and column \<open>y + w\<close> are not part of the sample.
\<close>

theorem neighborhood_half_open_window:
  assumes "0 \<le> x" "0 \<le> y" "0 \<le> w"
  shows "neighborhood M (x, y) w = map (\<lambda>(r, c). dense M r c) (neighborhood_positions M (x, y) w)
    \<and> neighborhood_positions M (x, y) w =
        List.product [nat (max 0 (x - w)) ..< nat (min (x + w) (int (nrows M)))]
                     [nat (max 0 (y - w)) ..< nat (min (y + w) (int (ncols M)))]
    \<and> set (neighborhood_positions M (x, y) w) =
        {(r, c). x - w \<le> int r \<and> int r < x + w \<and> r < nrows M
               \<and> y - w \<le> int c \<and> int c < y + w \<and> c < ncols M}
    \<and> distinct (neighborhood_positions M (x, y) w)"
  using neighborhood_positions_window[OF assms, of M] neighborhood_positions_set[OF assms, of M]
    neighborhood_positions_distinct[OF assms, of M]
  by (simp only: neighborhood_def simp_thms)

theorem neighborhood_half_open_window_witness:
  "(0::int) \<le> 5 \<and> (0::int) \<le> 1
   \<and> neighborhood_positions \<lparr>nrows = 20, ncols = 20, entries = [((6, 5), Count 7)]\<rparr> (5, 5) 1
       = [(4, 4), (4, 5), (5, 4), (5, 5)]
   \<and> neighborhood \<lparr>nrows = 20, ncols = 20, entries = [((6, 5), Count 7)]\<rparr> (5, 5) 1
       = [Count 0, Count 0, Count 0, Count 0]"
proof -
  define M :: "count matrix" where "M = \<lparr>nrows = 20, ncols = 20, entries = [((6, 5), Count 7)]\<rparr>"
  have h: "(0::int) \<le> 5" "(0::int) \<le> 1" by simp_all
  have up: "[4 ..< 6] = [4, 5::nat]" by (simp add: upt_rec)
  have t: "neighborhood_positions M (5, 5) 1 = List.product [4 ..< 6] [4 ..< 6]"
     and n: "neighborhood M (5, 5) 1 = map (\<lambda>(r, c). dense M r c) (neighborhood_positions M (5, 5) 1)"
    using neighborhood_half_open_window[OF h(1) h(1) h(2), of M] by (simp_all add: M_def)
  have p: "neighborhood_positions M (5, 5) 1 = [(4, 4), (4, 5), (5, 4), (5, 5)]"
    unfolding t up by simp
  have "neighborhood M (5, 5) 1 = [Count 0, Count 0, Count 0, Count 0]"
    unfolding n p by (simp add: dense_def M_def)
  then show ?thesis using h p unfolding M_def by simp
qed

text \<open>
  Claim C6 as stated fails: in a 20 x 20 matrix, for the candidate \<open>(5, 5)\<close> and window size
  1, the position \<open>(6, 5)\<close> lies in the inclusive window (9 positions) and holds the count
  7, but the sample of the source has 4 elements and does not read it.
\<close>

theorem neighborhood_inclusive_counterexample:
  "(6, 5) \<in> set (inclusive_window_positions \<lparr>nrows = 20, ncols = 20, entries = [((6, 5), Count 7)]\<rparr> (5, 5) 1)
   \<and> (6, 5) \<notin> set (neighborhood_positions \<lparr>nrows = 20, ncols = 20, entries = [((6, 5), Count 7)]\<rparr> (5, 5) 1)
   \<and> Count 7 \<notin> set (neighborhood \<lparr>nrows = 20, ncols = 20, entries = [((6, 5), Count 7)]\<rparr> (5, 5) 1)
   \<and> length (neighborhood \<lparr>nrows = 20, ncols = 20, entries = [((6, 5), Count 7)]\<rparr> (5, 5) 1) = 4
   \<and> length (inclusive_window_positions \<lparr>nrows = 20, ncols = 20, entries = [((6, 5), Count 7)]\<rparr> (5, 5) 1) = 9"
proof -
  define M :: "count matrix" where "M = \<lparr>nrows = 20, ncols = 20, entries = [((6, 5), Count 7)]\<rparr>"
  have h: "(0::int) \<le> 5" "(0::int) \<le> 1" by simp_all
  have up: "[4 ..< 6] = [4, 5::nat]" by (simp add: upt_rec)
  have p: "neighborhood_positions M (5, 5) 1 = [(4, 4), (4, 5), (5, 4), (5, 5)]"
    unfolding neighborhood_positions_window[OF h(1) h(1) h(2)] by (simp add: M_def up)
  have n: "neighborhood M (5, 5) 1 = [Count 0, Count 0, Count 0, Count 0]"
    unfolding neighborhood_def p by (simp add: dense_def M_def)
  have f: "filter (\<lambda>r. 4 \<le> r \<and> r \<le> 6) [0 ..< 20] = [4, 5, 6::nat]"
    by (simp add: upt_rec)
  have i: "inclusive_window_positions M (5, 5) 1
     = [(4, 4), (4, 5), (4, 6), (5, 4), (5, 5), (5, 6), (6, 4), (6, 5), (6, 6)]"
    unfolding inclusive_window_positions_def by (simp add: M_def f)
  show ?thesis unfolding M_def[symmetric] p n i by simp
qed

subsection \<open>Evaluating the pipeline on concrete matrices\<close>

lemmas zscore_eval = compute_zscore_matrix_def nonzero_def data_of_def distance_def
  fsub_def Let_def

lemmas screen_eval = screen_def eliminate_zeros_def nonzero_def data_of_def logical_and_def
  mask_index_def select_def Let_def

lemma sqrt_25_4: "sqrt (25/4) = 5/2"
  by (rule real_sqrt_unique) (simp_all add: power2_eq_square)

text \<open>
  Claim C4 fails on a NaN input. \<^verbatim>\<open>nan_to_num\<close> is applied to the copy \<^verbatim>\<open>data\<close>, from which
  the sums, the means and the deviations are computed; the last loop reads the value from
  \<^verbatim>\<open>pMatrix.data\<close>, which still holds the NaN. For the 2 x 2 matrix whose one stored element
  is a NaN at \<open>(0, 1)\<close> the result stores NaN at \<open>(0, 1)\<close>, which is not a finite number.
\<close>

theorem zscore_nan_input_stored:
  "compute_zscore_matrix \<lparr>nrows = 2, ncols = 2, entries = [((0, 1), CountNaN)]\<rparr>
     = Inr \<lparr>nrows = 2, ncols = 2, entries = [((0, 1), NaN)]\<rparr>
   \<and> \<not> isfinite NaN"
  by (simp add: zscore_eval)

text \<open>
  Claim C1 fails when a z-score is exactly 0. In the 4 x 4 matrix with the counts 4, 2 and 5
  on the first off-diagonal the adjusted mean is \<open>(1 + 11) / 3 = 4\<close>, so the z-score at
  \<open>(0, 1)\<close> is 0. \<^verbatim>\<open>eliminate_zeros\<close> drops it from the z-score matrix: the z-score mask has
  2 elements, the mask of the raw counts has 3, and \<^verbatim>\<open>np.logical_and\<close> raises ValueError,
  for every threshold. No position is screened.
\<close>

theorem screen_zero_zscore_raises:
  "compute_zscore_matrix
     \<lparr>nrows = 4, ncols = 4, entries = [((0, 1), Count 4), ((1, 2), Count 2), ((2, 3), Count 5)]\<rparr>
     = Inr \<lparr>nrows = 4, ncols = 4,
            entries = [((0, 1), Num 0), ((1, 2), Num (- 2 / sqrt (5/3))), ((2, 3), Num (1 / sqrt (5/3)))]\<rparr>
   \<and> screen
        \<lparr>nrows = 4, ncols = 4, entries = [((0, 1), Count 4), ((1, 2), Count 2), ((2, 3), Count 5)]\<rparr>
        \<lparr>nrows = 4, ncols = 4,
            entries = [((0, 1), Num 0), ((1, 2), Num (- 2 / sqrt (5/3))), ((2, 3), Num (1 / sqrt (5/3)))]\<rparr>
        t pit = Inl ValueError
   \<and> compute_loops mw dbscan
        \<lparr>nrows = 4, ncols = 4, entries = [((0, 1), Count 4), ((1, 2), Count 2), ((2, 3), Count 5)]\<rparr>
        t w pP q pit = Inl ValueError"
proof -
  define H :: "count matrix" where
    "H = \<lparr>nrows = 4, ncols = 4, entries = [((0, 1), Count 4), ((1, 2), Count 2), ((2, 3), Count 5)]\<rparr>"
  define Z :: "fval matrix" where
    "Z = \<lparr>nrows = 4, ncols = 4,
            entries = [((0, 1), Num 0), ((1, 2), Num (- 2 / sqrt (5/3))), ((2, 3), Num (1 / sqrt (5/3)))]\<rparr>"
  have z: "compute_zscore_matrix H = Inr Z"
    unfolding H_def Z_def by (simp add: zscore_eval numeral_eq_Suc)
  have s: "screen H Z t pit = Inl ValueError"
    unfolding H_def Z_def by (simp add: screen_eval)
  have "compute_loops mw dbscan H t w pP q pit = Inl ValueError"
    by (simp add: compute_loops_def z compute_long_range_contacts_def s)
  then show ?thesis using z s unfolding H_def Z_def by simp
qed


subsection \<open>The order of the FDR step and the removal of duplicates\<close>





lemma swap_candidate_ordered: "fst (swap_candidate c) \<le> snd (swap_candidate c)"
  by (simp add: swap_candidate_def)


lemmas neighborhood_eval = neighborhood_def neighborhood_positions_def slice_indices_def
  slice_bound_def dense_def Let_def upt_rec

lemma run_two_mirrored:
  fixes p0 p1 :: real
  assumes "p0 < 1/20" "p1 < 1/20"
  shows "candidates_before_fdr (\<lambda>i nb. if i = 0 then MWPvalue p0 else MWPvalue p1)
       (\<lambda>cs eps. [- 1, - 1])
       \<lparr>nrows = 12, ncols = 12, entries = [((1, 10), Count 50), ((10, 1), Count 50)]\<rparr>
       [(1, 10), (10, 1)] 1 (1/20)
     = Inr [((1, 10), p0), ((10, 1), p1)]"
proof -
  define H :: "count matrix" where
    "H = \<lparr>nrows = 12, ncols = 12, entries = [((1, 10), Count 50), ((10, 1), Count 50)]\<rparr>"
  have nb: "neighborhood H (1, 10) 1 \<noteq> []" "neighborhood H (10, 1) 1 \<noteq> []"
    unfolding H_def by (simp_all add: neighborhood_eval)
  have m: "mw_loop (\<lambda>i nb. if i = 0 then MWPvalue p0 else MWPvalue p1) H 1 (1/20) 0 [(1, 10), (10, 1)]
     = Inr ([True, True], [p0, p1])"
    using assms by (simp add: Let_def nb)
  show ?thesis unfolding H_def[symmetric] candidates_before_fdr_def m
    by (simp add: cluster_mask_def select_def)
qed



text \<open>
  Claim C10. When the candidates that reach the FDR step all have the same p-value \<open>c\<close>,
  the threshold is \<open>-inf\<close> or \<open>c\<close> itself, no candidate is strictly below it, and the
  function returns the "no loops" result, whatever \<open>c\<close> and the target rate are.
\<close>

theorem equal_pvalues_no_loops:
  assumes "candidates_before_fdr mw dbscan pHiCMatrix pCandidates pWindowSize pPValue = Inr cps"
    and "\<forall>cp\<in>set cps. snd cp = c"
  shows "fdr_accept pQValue cps = []
    \<and> (largest_p_i pQValue (map snd cps) = None \<or> largest_p_i pQValue (map snd cps) = Some c)
    \<and> candidate_uniform_distribution_test mw dbscan pHiCMatrix pCandidates pWindowSize pPValue pQValue
        = Inr None"
proof -
  have l: "largest_p_i pQValue (map snd cps) = None \<or> largest_p_i pQValue (map snd cps) = Some c"
  proof (cases "largest_p_i pQValue (map snd cps)")
    case None
    then show ?thesis by simp
  next
    case (Some t)
    then have "t \<in> set (map snd cps)" by (rule largest_p_i_in_set)
    then have "t = c" using assms(2) by auto
    then show ?thesis using Some by simp
  qed
  have "\<not> lt_largest (snd cp) (largest_p_i pQValue (map snd cps))" if "cp \<in> set cps" for cp
    using l assms(2) that by auto
  then have a: "fdr_accept pQValue cps = []" by (simp add: fdr_accept_def)
  then have "candidate_uniform_distribution_test mw dbscan pHiCMatrix pCandidates pWindowSize pPValue pQValue
        = Inr None"
    using assms(1) by (simp add: candidate_uniform_distribution_test_def)
  then show ?thesis using a l by blast
qed

theorem equal_pvalues_no_loops_witness:
  "candidate_uniform_distribution_test (\<lambda>i nb. if i = 0 then MWPvalue (1/1000) else MWPvalue (1/1000))
       (\<lambda>cs eps. [- 1, - 1])
       \<lparr>nrows = 12, ncols = 12, entries = [((1, 10), Count 50), ((10, 1), Count 50)]\<rparr>
       [(1, 10), (10, 1)] 1 (1/20) (1/20)
     = Inr None
   \<and> fdr_accept (1/20) [((1, 10), 1/1000), ((10, 1), 1/1000)] = []"
proof -
  have c: "candidates_before_fdr (\<lambda>i nb. if i = 0 then MWPvalue (1/1000) else MWPvalue (1/1000))
       (\<lambda>cs eps. [- 1, - 1])
       \<lparr>nrows = 12, ncols = 12, entries = [((1, 10), Count 50), ((10, 1), Count 50)]\<rparr>
       [(1, 10), (10, 1)] 1 (1/20)
     = Inr [((1, 10), 1/1000), ((10, 1), 1/1000)]"
    by (rule run_two_mirrored) simp_all
  have eq: "\<forall>cp\<in>set [((1::int, 10::int), 1/1000 :: real), ((10, 1), 1/1000)]. snd cp = 1/1000" by simp
  show ?thesis using equal_pvalues_no_loops[OF c eq, of "1/20"] by blast
qed

subsection \<open>One candidate per cluster\<close>

lemma cluster_best_snoc_other:
  assumes "k < length xs" "fst (xs ! k) \<noteq> c"
  shows "cluster_best (xs @ [(c, p)]) k \<longleftrightarrow> cluster_best xs k"
  using assms unfolding cluster_best_def
  by (auto simp: nth_append less_Suc_eq)

lemma cluster_best_snoc_same:
  assumes "k < length xs" "fst (xs ! k) = c"
  shows "cluster_best (xs @ [(c, p)]) k \<longleftrightarrow> cluster_best xs k \<and> snd (xs ! k) \<le> p"
  using assms unfolding cluster_best_def
  by (auto simp: nth_append less_Suc_eq)

lemma cluster_best_snoc_new:
  "cluster_best (xs @ [(c, p)]) (length xs) \<longleftrightarrow> (\<forall>j<length xs. fst (xs ! j) = c \<longrightarrow> p < snd (xs ! j))"
  unfolding cluster_best_def
  by (auto simp: nth_append less_Suc_eq)

lemma cluster_best_unique:
  assumes "cluster_best xs k" "cluster_best xs j" "fst (xs ! k) = fst (xs ! j)"
  shows "k = j"
proof -
  have kj: "snd (xs ! k) < snd (xs ! j) \<or> (snd (xs ! k) = snd (xs ! j) \<and> k \<le> j)"
    using assms unfolding cluster_best_def by auto
  have jk: "snd (xs ! j) < snd (xs ! k) \<or> (snd (xs ! j) = snd (xs ! k) \<and> j \<le> k)"
    using assms unfolding cluster_best_def by auto
  from kj jk show ?thesis by auto
qed

lemma cluster_best_le:
  assumes "cluster_best xs k" "j < length xs" "fst (xs ! j) = fst (xs ! k)"
  shows "snd (xs ! k) \<le> snd (xs ! j)"
  using assms unfolding cluster_best_def by fastforce

lemma cluster_inv_noise:
  assumes "cluster_inv xs msk d"
  shows "cluster_inv (xs @ [(- 1, p)]) (msk @ [True]) d"
  unfolding cluster_inv_def
proof (intro conjI allI impI)
  show "length (msk @ [True]) = length (xs @ [(- 1, p)])"
    using assms by (simp add: cluster_inv_def)
next
  fix c :: int assume c: "c \<noteq> - 1"
  have old: "case d c of
           None \<Rightarrow> (\<forall>j<length xs. fst (xs ! j) \<noteq> c)
         | Some (k, pk) \<Rightarrow> k < length xs \<and> fst (xs ! k) = c \<and> snd (xs ! k) = pk \<and> cluster_best xs k"
    using assms c by (simp add: cluster_inv_def)
  show "case d c of
           None \<Rightarrow> (\<forall>j<length (xs @ [(- 1, p)]). fst ((xs @ [(- 1, p)]) ! j) \<noteq> c)
         | Some (k, pk) \<Rightarrow> k < length (xs @ [(- 1, p)]) \<and> fst ((xs @ [(- 1, p)]) ! k) = c
              \<and> snd ((xs @ [(- 1, p)]) ! k) = pk \<and> cluster_best (xs @ [(- 1, p)]) k"
  proof (cases "d c")
    case None
    then show ?thesis using old c by (auto simp: nth_append less_Suc_eq)
  next
    case (Some kp)
    obtain k pk where kp: "kp = (k, pk)" by (cases kp)
    have o: "k < length xs" "fst (xs ! k) = c" "snd (xs ! k) = pk" "cluster_best xs k"
      using old Some kp by auto
    have "cluster_best (xs @ [(- 1, p)]) k"
      using cluster_best_snoc_other[of k xs "- 1" p] o c by auto
    then show ?thesis using Some kp o by (simp add: nth_append)
  qed
next
  fix k assume k: "k < length (xs @ [(- 1, p)])"
  have len: "length msk = length xs" using assms by (simp add: cluster_inv_def)
  show "(msk @ [True]) ! k = (fst ((xs @ [(- 1, p)]) ! k) = - 1 \<or> cluster_best (xs @ [(- 1, p)]) k)"
  proof (cases "k < length xs")
    case True
    have m: "msk ! k = (fst (xs ! k) = - 1 \<or> cluster_best xs k)"
      using assms True by (simp add: cluster_inv_def)
    show ?thesis
    proof (cases "fst (xs ! k) = - 1")
      case t: True
      then show ?thesis using True m len by (simp add: nth_append)
    next
      case False
      then show ?thesis
        using True m len cluster_best_snoc_other[of k xs "- 1" p] by (simp add: nth_append)
    qed
  next
    case False
    then have "k = length xs" using k by simp
    then show ?thesis using len by (simp add: nth_append)
  qed
qed

lemma cluster_inv_dictD:
  assumes "cluster_inv xs msk d" "c \<noteq> - 1"
  shows "d c = None \<Longrightarrow> j < length xs \<Longrightarrow> fst (xs ! j) \<noteq> c"
    and "d c = Some (k, pk) \<Longrightarrow> k < length xs \<and> fst (xs ! k) = c \<and> snd (xs ! k) = pk \<and> cluster_best xs k"
proof -
  have old: "case d c of
           None \<Rightarrow> (\<forall>j<length xs. fst (xs ! j) \<noteq> c)
         | Some (k, pk) \<Rightarrow> k < length xs \<and> fst (xs ! k) = c \<and> snd (xs ! k) = pk \<and> cluster_best xs k"
    using assms by (simp add: cluster_inv_def)
  show "d c = None \<Longrightarrow> j < length xs \<Longrightarrow> fst (xs ! j) \<noteq> c" using old by simp
  show "d c = Some (k, pk) \<Longrightarrow> k < length xs \<and> fst (xs ! k) = c \<and> snd (xs ! k) = pk \<and> cluster_best xs k"
    using old by simp
qed

lemma cluster_inv_maskD:
  assumes "cluster_inv xs msk d" "k < length xs"
  shows "msk ! k = (fst (xs ! k) = - 1 \<or> cluster_best xs k)"
  using assms by (simp add: cluster_inv_def)

lemma cluster_inv_lengthD: "cluster_inv xs msk d \<Longrightarrow> length msk = length xs"
  by (simp add: cluster_inv_def)

lemma cluster_invI:
  assumes "length msk = length xs"
    and "\<And>c. c \<noteq> - 1 \<Longrightarrow> d c = None \<Longrightarrow> \<forall>j<length xs. fst (xs ! j) \<noteq> c"
    and "\<And>c k pk. c \<noteq> - 1 \<Longrightarrow> d c = Some (k, pk) \<Longrightarrow>
           k < length xs \<and> fst (xs ! k) = c \<and> snd (xs ! k) = pk \<and> cluster_best xs k"
    and "\<And>k. k < length xs \<Longrightarrow> msk ! k = (fst (xs ! k) = - 1 \<or> cluster_best xs k)"
  shows "cluster_inv xs msk d"
  unfolding cluster_inv_def
proof (intro conjI allI impI)
  show "length msk = length xs" by (rule assms(1))
next
  fix c :: int assume c: "c \<noteq> - 1"
  show "case d c of
           None \<Rightarrow> (\<forall>j<length xs. fst (xs ! j) \<noteq> c)
         | Some (k, pk) \<Rightarrow> k < length xs \<and> fst (xs ! k) = c \<and> snd (xs ! k) = pk \<and> cluster_best xs k"
  proof (cases "d c")
    case None
    then show ?thesis using assms(2)[OF c] by simp
  next
    case (Some kp)
    obtain k pk where kp: "kp = (k, pk)" by (cases kp)
    show ?thesis using assms(3)[OF c, of k pk] Some kp by simp
  qed
next
  fix k assume "k < length xs"
  then show "msk ! k = (fst (xs ! k) = - 1 \<or> cluster_best xs k)" by (rule assms(4))
qed

lemma cluster_inv_new:
  assumes inv: "cluster_inv xs msk d" and c: "c \<noteq> - 1" and none: "d c = None"
  shows "cluster_inv (xs @ [(c, p)]) (msk @ [True]) (d(c \<mapsto> (length xs, p)))"
proof (rule cluster_invI)
  show "length (msk @ [True]) = length (xs @ [(c, p)])"
    using cluster_inv_lengthD[OF inv] by simp
next
  fix c' assume c': "c' \<noteq> - 1" and n: "(d(c \<mapsto> (length xs, p))) c' = None"
  then have "c' \<noteq> c" "d c' = None" by (auto split: if_splits)
  then show "\<forall>j<length (xs @ [(c, p)]). fst ((xs @ [(c, p)]) ! j) \<noteq> c'"
    using cluster_inv_dictD(1)[OF inv c'] by (auto simp: nth_append less_Suc_eq)
next
  fix c' k pk assume c': "c' \<noteq> - 1" and s: "(d(c \<mapsto> (length xs, p))) c' = Some (k, pk)"
  show "k < length (xs @ [(c, p)]) \<and> fst ((xs @ [(c, p)]) ! k) = c' \<and> snd ((xs @ [(c, p)]) ! k) = pk
      \<and> cluster_best (xs @ [(c, p)]) k"
  proof (cases "c' = c")
    case True
    then have k: "k = length xs" "pk = p" using s by auto
    have "cluster_best (xs @ [(c, p)]) (length xs)"
      unfolding cluster_best_snoc_new using cluster_inv_dictD(1)[OF inv c none] by blast
    then show ?thesis using k True by simp
  next
    case False
    then have "d c' = Some (k, pk)" using s by simp
    then have o: "k < length xs" "fst (xs ! k) = c'" "snd (xs ! k) = pk" "cluster_best xs k"
      using cluster_inv_dictD(2)[OF inv c'] by auto
    have "cluster_best (xs @ [(c, p)]) k"
      using cluster_best_snoc_other[of k xs c p] o False by auto
    then show ?thesis using o by (simp add: nth_append)
  qed
next
  fix k assume k: "k < length (xs @ [(c, p)])"
  have len: "length msk = length xs" by (rule cluster_inv_lengthD[OF inv])
  show "(msk @ [True]) ! k = (fst ((xs @ [(c, p)]) ! k) = - 1 \<or> cluster_best (xs @ [(c, p)]) k)"
  proof (cases "k < length xs")
    case True
    have ne: "fst (xs ! k) \<noteq> c" using cluster_inv_dictD(1)[OF inv c none True] .
    show ?thesis
      using True len cluster_inv_maskD[OF inv True] cluster_best_snoc_other[OF True ne, of p]
      by (simp add: nth_append)
  next
    case False
    then have kk: "k = length xs" using k by simp
    have "cluster_best (xs @ [(c, p)]) (length xs)"
      unfolding cluster_best_snoc_new using cluster_inv_dictD(1)[OF inv c none] by blast
    then show ?thesis using kk len by (simp add: nth_append)
  qed
qed

lemma cluster_inv_better:
  assumes inv: "cluster_inv xs msk d" and c: "c \<noteq> - 1" and some: "d c = Some (j, pj)"
    and lt: "p < pj"
  shows "cluster_inv (xs @ [(c, p)]) (msk[j := False] @ [True]) (d(c \<mapsto> (length xs, p)))"
proof -
  have j: "j < length xs" "fst (xs ! j) = c" "snd (xs ! j) = pj" "cluster_best xs j"
    using cluster_inv_dictD(2)[OF inv c some] by auto
  have above: "\<And>i. i < length xs \<Longrightarrow> fst (xs ! i) = c \<Longrightarrow> p < snd (xs ! i)"
  proof -
    fix i assume "i < length xs" "fst (xs ! i) = c"
    then have "snd (xs ! j) \<le> snd (xs ! i)" using cluster_best_le[OF j(4), of i] j(2) by simp
    then show "p < snd (xs ! i)" using lt j(3) by simp
  qed
  have new: "cluster_best (xs @ [(c, p)]) (length xs)"
    unfolding cluster_best_snoc_new using above by blast
  have len: "length msk = length xs" by (rule cluster_inv_lengthD[OF inv])
  show ?thesis
  proof (rule cluster_invI)
    show "length (msk[j := False] @ [True]) = length (xs @ [(c, p)])" using len by simp
  next
    fix c' assume c': "c' \<noteq> - 1" and n: "(d(c \<mapsto> (length xs, p))) c' = None"
    then have "c' \<noteq> c" "d c' = None" by (auto split: if_splits)
    then show "\<forall>j<length (xs @ [(c, p)]). fst ((xs @ [(c, p)]) ! j) \<noteq> c'"
      using cluster_inv_dictD(1)[OF inv c'] by (auto simp: nth_append less_Suc_eq)
  next
    fix c' k pk assume c': "c' \<noteq> - 1" and s: "(d(c \<mapsto> (length xs, p))) c' = Some (k, pk)"
    show "k < length (xs @ [(c, p)]) \<and> fst ((xs @ [(c, p)]) ! k) = c' \<and> snd ((xs @ [(c, p)]) ! k) = pk
        \<and> cluster_best (xs @ [(c, p)]) k"
    proof (cases "c' = c")
      case True
      then have k: "k = length xs" "pk = p" using s by auto
      show ?thesis using k True new by simp
    next
      case False
      then have "d c' = Some (k, pk)" using s by simp
      then have o: "k < length xs" "fst (xs ! k) = c'" "snd (xs ! k) = pk" "cluster_best xs k"
        using cluster_inv_dictD(2)[OF inv c'] by auto
      have "cluster_best (xs @ [(c, p)]) k"
        using cluster_best_snoc_other[of k xs c p] o False by auto
      then show ?thesis using o by (simp add: nth_append)
    qed
  next
    fix k assume k: "k < length (xs @ [(c, p)])"
    show "(msk[j := False] @ [True]) ! k
        = (fst ((xs @ [(c, p)]) ! k) = - 1 \<or> cluster_best (xs @ [(c, p)]) k)"
    proof (cases "k < length xs")
      case True
      show ?thesis
      proof (cases "fst (xs ! k) = c")
        case same: True
        have nb: "\<not> cluster_best (xs @ [(c, p)]) k"
          unfolding cluster_best_snoc_same[OF True same] using above[OF True same] by simp
        have "\<not> (msk[j := False]) ! k"
        proof (cases "k = j")
          case True
          then show ?thesis using j(1) len by simp
        next
          case False
          have "\<not> cluster_best xs k"
            using cluster_best_unique[of xs k j] j(4) j(2) same False by auto
          then have "\<not> msk ! k" using cluster_inv_maskD[OF inv True] same c by simp
          then show ?thesis using False by simp
        qed
        then show ?thesis using nb True len same c by (simp add: nth_append)
      next
        case other: False
        then have "k \<noteq> j" using j(2) by auto
        then show ?thesis
          using True len cluster_inv_maskD[OF inv True] cluster_best_snoc_other[OF True other, of p]
          by (simp add: nth_append)
      qed
    next
      case False
      then have kk: "k = length xs" using k by simp
      show ?thesis using kk len new by (simp add: nth_append)
    qed
  qed
qed

lemma cluster_inv_worse:
  assumes inv: "cluster_inv xs msk d" and c: "c \<noteq> - 1" and some: "d c = Some (j, pj)"
    and ge: "\<not> p < pj"
  shows "cluster_inv (xs @ [(c, p)]) (msk @ [False]) d"
proof -
  have j: "j < length xs" "fst (xs ! j) = c" "snd (xs ! j) = pj" "cluster_best xs j"
    using cluster_inv_dictD(2)[OF inv c some] by auto
  have notnew: "\<not> cluster_best (xs @ [(c, p)]) (length xs)"
    unfolding cluster_best_snoc_new using j ge by auto
  have len: "length msk = length xs" by (rule cluster_inv_lengthD[OF inv])
  show ?thesis
  proof (rule cluster_invI)
    show "length (msk @ [False]) = length (xs @ [(c, p)])" using len by simp
  next
    fix c' assume c': "c' \<noteq> - 1" and n: "d c' = None"
    then have "c' \<noteq> c" using some by auto
    then show "\<forall>j<length (xs @ [(c, p)]). fst ((xs @ [(c, p)]) ! j) \<noteq> c'"
      using cluster_inv_dictD(1)[OF inv c' n] by (auto simp: nth_append less_Suc_eq)
  next
    fix c' k pk assume c': "c' \<noteq> - 1" and s: "d c' = Some (k, pk)"
    have o: "k < length xs" "fst (xs ! k) = c'" "snd (xs ! k) = pk" "cluster_best xs k"
      using cluster_inv_dictD(2)[OF inv c' s] by auto
    have "cluster_best (xs @ [(c, p)]) k"
    proof (cases "c' = c")
      case True
      then have "k = j" "pk = pj" using s some by auto
      then show ?thesis
        using cluster_best_snoc_same[of j xs c p] j ge by auto
    next
      case False
      then show ?thesis using cluster_best_snoc_other[of k xs c p] o by auto
    qed
    then show "k < length (xs @ [(c, p)]) \<and> fst ((xs @ [(c, p)]) ! k) = c' \<and> snd ((xs @ [(c, p)]) ! k) = pk
        \<and> cluster_best (xs @ [(c, p)]) k"
      using o by (simp add: nth_append)
  next
    fix k assume k: "k < length (xs @ [(c, p)])"
    show "(msk @ [False]) ! k = (fst ((xs @ [(c, p)]) ! k) = - 1 \<or> cluster_best (xs @ [(c, p)]) k)"
    proof (cases "k < length xs")
      case True
      show ?thesis
      proof (cases "fst (xs ! k) = c")
        case same: True
        have "cluster_best (xs @ [(c, p)]) k = cluster_best xs k"
        proof (cases "cluster_best xs k")
          case b: True
          then have "k = j" using cluster_best_unique[of xs k j] j same by auto
          then show ?thesis
            using cluster_best_snoc_same[OF True same, of p] b j ge by auto
        next
          case False
          then show ?thesis using cluster_best_snoc_same[OF True same, of p] by simp
        qed
        then show ?thesis
          using True len cluster_inv_maskD[OF inv True] by (simp add: nth_append)
      next
        case other: False
        then show ?thesis
          using True len cluster_inv_maskD[OF inv True] cluster_best_snoc_other[OF True other, of p]
          by (simp add: nth_append)
      qed
    next
      case False
      then have kk: "k = length xs" using k by simp
      show ?thesis using kk len notnew c by (simp add: nth_append)
    qed
  qed
qed

lemma cluster_loop_inv:
  assumes "cluster_inv xs msk d"
  shows "\<exists>d'. cluster_inv (xs @ rest) (cluster_loop (length xs) rest msk d) d'"
  using assms
proof (induction rest arbitrary: xs msk d)
  case Nil
  then show ?case by auto
next
  case (Cons cp rest)
  obtain c p where cp: "cp = (c, p)" by (cases cp)
  have app: "xs @ cp # rest = (xs @ [(c, p)]) @ rest" using cp by simp
  have next_inv: "\<exists>d'. cluster_inv (xs @ cp # rest) (cluster_loop (length xs) (cp # rest) msk d) d'"
    if inv: "cluster_inv (xs @ [(c, p)]) msk1 d1"
      and step: "cluster_loop (length xs) (cp # rest) msk d = cluster_loop (Suc (length xs)) rest msk1 d1"
    for msk1 d1
  proof -
    have "\<exists>d'. cluster_inv ((xs @ [(c, p)]) @ rest)
            (cluster_loop (length (xs @ [(c, p)])) rest msk1 d1) d'"
      using inv by (rule Cons.IH)
    then have "\<exists>d'. cluster_inv ((xs @ [(c, p)]) @ rest)
            (cluster_loop (Suc (length xs)) rest msk1 d1) d'"
      by (simp only: length_append_singleton)
    then show ?thesis unfolding step app .
  qed
  show ?case
  proof (cases "c = - 1")
    case True
    have "cluster_inv (xs @ [(c, p)]) (msk @ [True]) d"
      unfolding True using Cons.prems by (rule cluster_inv_noise)
    then show ?thesis by (rule next_inv) (simp add: cp True)
  next
    case False
    show ?thesis
    proof (cases "d c")
      case None
      have "cluster_inv (xs @ [(c, p)]) (msk @ [True]) (d(c \<mapsto> (length xs, p)))"
        using Cons.prems False None by (rule cluster_inv_new)
      then show ?thesis by (rule next_inv) (simp add: cp False None)
    next
      case (Some jp)
      obtain j pj where jp: "jp = (j, pj)" by (cases jp)
      show ?thesis
      proof (cases "p < pj")
        case True
        have "cluster_inv (xs @ [(c, p)]) (msk[j := False] @ [True]) (d(c \<mapsto> (length xs, p)))"
          using Cons.prems False Some[unfolded jp] True by (rule cluster_inv_better)
        then show ?thesis by (rule next_inv) (simp add: cp False Some jp True)
      next
        case nlt: False
        have "cluster_inv (xs @ [(c, p)]) (msk @ [False]) d"
          using Cons.prems False Some[unfolded jp] nlt by (rule cluster_inv_worse)
        then show ?thesis by (rule next_inv) (simp add: cp False Some jp nlt)
      qed
    qed
  qed
qed

lemma cluster_inv_empty: "cluster_inv [] [] Map.empty"
  by (simp add: cluster_inv_def)

lemma cluster_mask_inv: "\<exists>d. cluster_inv (zip clusters pvalues) (cluster_mask clusters pvalues) d"
  using cluster_loop_inv[OF cluster_inv_empty, of "zip clusters pvalues"]
  by (simp add: cluster_mask_def)

lemma cluster_best_exists:
  assumes "i < length xs"
  shows "\<exists>k<length xs. fst (xs ! k) = fst (xs ! i) \<and> cluster_best xs k"
proof -
  define S where "S = {j. j < length xs \<and> fst (xs ! j) = fst (xs ! i)}"
  have fin: "finite S" unfolding S_def by simp
  have ne: "S \<noteq> {}" using assms unfolding S_def by auto
  define m where "m = Min ((\<lambda>j. snd (xs ! j)) ` S)"
  have mle: "\<And>j. j \<in> S \<Longrightarrow> m \<le> snd (xs ! j)" unfolding m_def using fin by simp
  have "m \<in> (\<lambda>j. snd (xs ! j)) ` S" unfolding m_def using fin ne by (intro Min_in) auto
  then obtain j0 where j0: "j0 \<in> S" "snd (xs ! j0) = m" by auto
  define k where "k = (LEAST j. j \<in> S \<and> snd (xs ! j) = m)"
  have k: "k \<in> S \<and> snd (xs ! k) = m"
    unfolding k_def using j0 by (intro LeastI[of "\<lambda>j. j \<in> S \<and> snd (xs ! j) = m" j0]) simp
  have kle: "\<And>j. j \<in> S \<Longrightarrow> snd (xs ! j) = m \<Longrightarrow> k \<le> j"
    unfolding k_def by (rule Least_le) simp
  have "cluster_best xs k"
    unfolding cluster_best_def
  proof (intro conjI allI impI)
    show "k < length xs" using k unfolding S_def by simp
  next
    fix j assume j: "j < length xs" "fst (xs ! j) = fst (xs ! k)"
    then have jS: "j \<in> S" using k unfolding S_def by simp
    show "snd (xs ! k) < snd (xs ! j) \<or> snd (xs ! k) = snd (xs ! j) \<and> k \<le> j"
      using mle[OF jS] kle[OF jS] k by fastforce
  qed
  then show ?thesis using k unfolding S_def by auto
qed

text \<open>
  Claim C7. Given the labels of the clustering, one per candidate with its p-value: the
  mask has one element per candidate; candidate \<open>k\<close> is kept if and only if it is noise
  (label \<open>-1\<close>) or, among the candidates with its label, it has the lowest p-value and is
  the first in scan order with that p-value; and so from every cluster that is not noise
  exactly one candidate is kept.
\<close>

theorem cluster_mask_keeps_best:
  assumes "length clusters = length pvalues"
  shows "length (cluster_mask clusters pvalues) = length clusters
    \<and> (\<forall>k<length clusters.
          cluster_mask clusters pvalues ! k \<longleftrightarrow>
            (clusters ! k = - 1 \<or>
             (\<forall>j<length clusters. clusters ! j = clusters ! k \<longrightarrow>
                pvalues ! k < pvalues ! j \<or> (pvalues ! k = pvalues ! j \<and> k \<le> j))))
    \<and> (\<forall>i<length clusters. clusters ! i \<noteq> - 1 \<longrightarrow>
          (\<exists>!k. k < length clusters \<and> clusters ! k = clusters ! i \<and> cluster_mask clusters pvalues ! k))"
proof -
  define xs where "xs = zip clusters pvalues"
  define msk where "msk = cluster_mask clusters pvalues"
  have n: "length xs = length clusters" using assms by (simp add: xs_def)
  have f: "\<And>k. k < length clusters \<Longrightarrow> fst (xs ! k) = clusters ! k"
    and s: "\<And>k. k < length clusters \<Longrightarrow> snd (xs ! k) = pvalues ! k"
    using assms by (simp_all add: xs_def)
  obtain d where inv: "cluster_inv xs msk d"
    using cluster_mask_inv[of clusters pvalues] unfolding xs_def msk_def by blast
  have len: "length msk = length clusters" using cluster_inv_lengthD[OF inv] n by simp
  have best: "cluster_best xs k \<longleftrightarrow>
      (\<forall>j<length clusters. clusters ! j = clusters ! k \<longrightarrow>
                pvalues ! k < pvalues ! j \<or> (pvalues ! k = pvalues ! j \<and> k \<le> j))"
    if "k < length clusters" for k
    unfolding cluster_best_def n using that f s by auto
  have m: "msk ! k \<longleftrightarrow> (clusters ! k = - 1 \<or> cluster_best xs k)" if "k < length clusters" for k
    using cluster_inv_maskD[OF inv, of k] that n f by simp
  have c2: "\<forall>k<length clusters. msk ! k \<longleftrightarrow>
            (clusters ! k = - 1 \<or>
             (\<forall>j<length clusters. clusters ! j = clusters ! k \<longrightarrow>
                pvalues ! k < pvalues ! j \<or> (pvalues ! k = pvalues ! j \<and> k \<le> j)))"
    using m best by simp
  have c3: "\<exists>!k. k < length clusters \<and> clusters ! k = clusters ! i \<and> msk ! k"
    if i: "i < length clusters" and ni: "clusters ! i \<noteq> - 1" for i
  proof -
    obtain k where k: "k < length xs" "fst (xs ! k) = fst (xs ! i)" "cluster_best xs k"
      using cluster_best_exists[of i xs] i n by auto
    have k1: "k < length clusters \<and> clusters ! k = clusters ! i \<and> msk ! k"
      using k m[of k] f i n by auto
    have "k' = k" if "k' < length clusters \<and> clusters ! k' = clusters ! i \<and> msk ! k'" for k'
    proof -
      have "cluster_best xs k'" using that m[of k'] ni by auto
      moreover have "fst (xs ! k') = fst (xs ! k)" using that k f i n by auto
      ultimately show ?thesis using cluster_best_unique[of xs k' k] k(3) by simp
    qed
    then show ?thesis using k1 by blast
  qed
  show ?thesis using len c2 c3 unfolding msk_def by blast
qed

theorem cluster_mask_keeps_best_witness:
  "cluster_mask [0, 0, - 1, 1, 0] [3/100, 1/100, 4/100, 2/100, 1/100]
     = [False, True, True, True, False]
   \<and> length (cluster_mask [0, 0, - 1, 1, 0] [3/100, 1/100, 4/100, 2/100, 1/100]) = 5"
proof -
  have l: "length [0, 0, - 1, 1, 0 :: int] = length [3/100, 1/100, 4/100, 2/100, 1/100 :: real]"
    by simp
  have e: "cluster_mask [0, 0, - 1, 1, 0] [3/100, 1/100, 4/100, 2/100, 1/100]
     = [False, True, True, True, False]"
    by (simp add: cluster_mask_def)
  show ?thesis using cluster_mask_keeps_best[OF l] e by simp
qed

subsection \<open>The z-scores of one distance\<close>

lemma sum_list_sqdev:
  "sum_list (map (\<lambda>x. (x - m)\<^sup>2) xs)
     = sum_list (map (\<lambda>x. x\<^sup>2) xs) - 2 * m * sum_list xs + real (length xs) * m\<^sup>2"
  by (induction xs) (simp_all add: power2_eq_square algebra_simps)

lemma variance_of_eq:
  assumes "xs \<noteq> []"
  shows "variance_of xs = mean_of (map (\<lambda>x. x\<^sup>2) xs) - (mean_of xs)\<^sup>2"
proof -
  define n where "n = real (length xs)"
  have n: "n > 0" using assms by (simp add: n_def)
  define s where "s = sum_list xs"
  define q where "q = sum_list (map (\<lambda>x. x\<^sup>2) xs)"
  have "variance_of xs = (q - 2 * (s / n) * s + n * (s / n)\<^sup>2) / n"
    unfolding variance_of_def mean_of_def sum_list_sqdev n_def s_def q_def by simp
  also have "\<dots> = q / n - (s / n)\<^sup>2"
    using n by (simp add: power2_eq_square field_simps)
  finally show ?thesis unfolding mean_of_def n_def s_def q_def by simp
qed

lemma sum_per_distance_loop_spec:
  assumes "length C = length S" "\<forall>q\<in>set ps. fst q < length S"
  shows "length (fst (sum_per_distance_loop S C ps)) = length S
       \<and> length (snd (sum_per_distance_loop S C ps)) = length S
       \<and> (\<forall>d<length S. fst (sum_per_distance_loop S C ps) ! d = S ! d + sum_at ps d
                      \<and> snd (sum_per_distance_loop S C ps) ! d = C ! d + count_at ps d)"
  using assms
proof (induction ps arbitrary: S C)
  case Nil
  then show ?case by (simp add: sum_at_def count_at_def)
next
  case (Cons q ps)
  obtain d x where q: "q = (d, x)" by (cases q)
  let ?S = "S[d := S ! d + x]" and ?C = "C[d := C ! d + 1]"
  have d: "d < length S" using Cons.prems(2) q by simp
  have l: "length ?C = length ?S" using Cons.prems(1) by simp
  have b: "\<forall>q\<in>set ps. fst q < length ?S" using Cons.prems(2) by simp
  have IH: "length (fst (sum_per_distance_loop ?S ?C ps)) = length S
       \<and> length (snd (sum_per_distance_loop ?S ?C ps)) = length S
       \<and> (\<forall>e<length S. fst (sum_per_distance_loop ?S ?C ps) ! e = ?S ! e + sum_at ps e
                      \<and> snd (sum_per_distance_loop ?S ?C ps) ! e = ?C ! e + count_at ps e)"
    using Cons.IH[OF l b] by simp
  have st: "sum_per_distance_loop S C (q # ps) = sum_per_distance_loop ?S ?C ps"
    using q by simp
  have upd: "\<And>e. e < length S \<Longrightarrow> ?S ! e + sum_at ps e = S ! e + sum_at (q # ps) e
        \<and> ?C ! e + count_at ps e = C ! e + count_at (q # ps) e"
    using q Cons.prems(1) by (auto simp: sum_at_def count_at_def nth_list_update)
  show ?case unfolding st using IH upd by simp
qed

lemma sigma_2_loop_length: "length (sigma_2_loop mean_adjusted sig ps) = length sig"
  by (induction ps arbitrary: sig) (auto)

lemma sigma_2_loop_spec:
  assumes "d < length sig" "mean_adjusted ! d = Num mu" "sig ! d = Num s"
  shows "sigma_2_loop mean_adjusted sig ps ! d = Num (s + sqdev_at ps d mu)"
  using assms
proof (induction ps arbitrary: sig s)
  case Nil
  then show ?case by (simp add: sqdev_at_def)
next
  case (Cons q ps)
  obtain e x where q: "q = (e, x)" by (cases q)
  let ?sig = "sig[e := fadd (sig ! e) (fsquare (fsub (Num x) (mean_adjusted ! e)))]"
  have st: "sigma_2_loop mean_adjusted sig (q # ps) = sigma_2_loop mean_adjusted ?sig ps"
    using q by simp
  have l: "d < length ?sig" using Cons.prems(1) by simp
  show ?case
  proof (cases "e = d")
    case True
    have v: "?sig ! d = Num (s + (x - mu) * (x - mu))"
      using True Cons.prems by (simp add: fsub_def)
    have "sigma_2_loop mean_adjusted ?sig ps ! d = Num (s + (x - mu) * (x - mu) + sqdev_at ps d mu)"
      using Cons.IH[OF l Cons.prems(2) v] .
    then show ?thesis unfolding st using True q by (simp add: sqdev_at_def)
  next
    case False
    have v: "?sig ! d = Num s" using False Cons.prems by simp
    have "sigma_2_loop mean_adjusted ?sig ps ! d = Num (s + sqdev_at ps d mu)"
      using Cons.IH[OF l Cons.prems(2) v] .
    then show ?thesis unfolding st using False q by (simp add: sqdev_at_def)
  qed
qed

lemma filter_length_eq_id: "length (filter P xs) = length xs \<Longrightarrow> filter P xs = xs"
proof (induction xs)
  case Nil
  then show ?case by simp
next
  case (Cons x xs)
  have le: "length (filter P xs) \<le> length xs" by (rule length_filter_le)
  show ?case
  proof (cases "P x")
    case True
    then show ?thesis using Cons by simp
  next
    case False
    then show ?thesis using Cons.prems le by simp
  qed
qed

lemma sqdev_at_nonneg: "0 \<le> sqdev_at ps d mu"
  unfolding sqdev_at_def by (rule sum_list_nonneg) auto

lemma zscore_entries:
  assumes "compute_zscore_matrix M = Inr Z"
  shows "entries Z = map (\<lambda>e. (fst e,
            fdiv (fsub (of_count (snd e)) (Num (mean_adjusted_at (distance_data M) (distance (fst e)))))
                 (Num (sigma_at (distance_data M) (distance (fst e)))))) (entries M)"
proof -
  define es where "es = entries M"
  define n where "n = nrows M"
  define ps where "ps = distance_data M"
  define positions where "positions = nonzero (Count 0) M"
  define ds where "ds = map distance positions"
  define xs where "xs = map nan_to_num (data_of M)"
  have c1: "\<not> list_ex (\<lambda>d. d \<ge> n) ds" and c2: "length positions = length (data_of M)"
    using assms unfolding compute_zscore_matrix_def Let_def n_def ds_def positions_def
    by (auto split: if_splits)
  have pos: "positions = map fst es"
  proof -
    have "length (filter (\<lambda>e. snd e \<noteq> Count 0) es) = length es"
      using c2 unfolding positions_def nonzero_def data_of_def es_def by simp
    then have "filter (\<lambda>e. snd e \<noteq> Count 0) es = es" by (rule filter_length_eq_id)
    then show ?thesis unfolding positions_def nonzero_def es_def by simp
  qed
  have zp: "zip ds xs = ps"
    unfolding ds_def xs_def ps_def distance_data_def pos data_of_def es_def
    by (simp add: zip_map_map zip_same_conv_map)
  have bound: "\<forall>q\<in>set ps. fst q < n"
  proof
    fix q assume "q \<in> set ps"
    then obtain e where e: "e \<in> set es" "fst q = distance (fst e)"
      unfolding ps_def distance_data_def es_def by auto
    then have "distance (fst e) \<in> set ds" unfolding ds_def pos by simp
    then have "\<not> n \<le> distance (fst e)" using c1 unfolding list_ex_iff by blast
    then show "fst q < n" using e by simp
  qed
  define SC where "SC = sum_per_distance_loop (replicate n 1) (replicate n 0) ps"
  define mean_adjusted where
    "mean_adjusted = map (\<lambda>(s, c). fdiv (Num s) (Num (real c))) (zip (fst SC) (snd SC))"
  define sigma_2 where "sigma_2 = sigma_2_loop mean_adjusted (replicate n (Num 0)) ps"
  define sigma where
    "sigma = map fsqrt (map (\<lambda>(s, c). fdiv s (Num (real c))) (zip sigma_2 (snd SC)))"
  have Z: "Z = \<lparr>nrows = nrows M, ncols = ncols M,
        entries = zip positions (map (\<lambda>(d, v). fdiv (fsub (of_count v) (mean_adjusted ! d)) (sigma ! d))
                         (zip ds (data_of M)))\<rparr>"
    using assms c1 c2
    unfolding compute_zscore_matrix_def Let_def n_def[symmetric] ds_def[symmetric]
      positions_def[symmetric] xs_def[symmetric] zp
      sigma_def sigma_2_def mean_adjusted_def SC_def
    by (simp add: case_prod_beta)
  have loop: "length (fst SC) = n \<and> length (snd SC) = n
       \<and> (\<forall>d<n. fst SC ! d = 1 + sum_at ps d \<and> snd SC ! d = count_at ps d)"
    using sum_per_distance_loop_spec[of "replicate n 0" "replicate n 1" ps] bound
    unfolding SC_def by simp
  have entry: "fdiv (fsub (of_count v) (mean_adjusted ! d)) (sigma ! d)
       = fdiv (fsub (of_count v) (Num (mean_adjusted_at ps d))) (Num (sigma_at ps d))"
    if d: "d < n" and cnt: "count_at ps d \<noteq> 0" for d v
  proof -
    have m: "mean_adjusted ! d = Num (mean_adjusted_at ps d)"
      unfolding mean_adjusted_def mean_adjusted_at_def using loop d cnt by simp
    have s2: "sigma_2 ! d = Num (0 + sqdev_at ps d (mean_adjusted_at ps d))"
      unfolding sigma_2_def using d m by (intro sigma_2_loop_spec) simp_all
    have l2: "length sigma_2 = n" unfolding sigma_2_def by (simp add: sigma_2_loop_length)
    have "sigma ! d = fsqrt (fdiv (sigma_2 ! d) (Num (real (snd SC ! d))))"
      unfolding sigma_def using d l2 loop by simp
    also have "\<dots> = Num (sigma_at ps d)"
      using s2 loop d cnt sqdev_at_nonneg[of ps d "mean_adjusted_at ps d"]
      by (simp add: sigma_at_def not_less)
    finally show ?thesis using m by simp
  qed
  have "entries Z = map (\<lambda>e. (fst e,
      fdiv (fsub (of_count (snd e)) (mean_adjusted ! distance (fst e))) (sigma ! distance (fst e)))) es"
    unfolding Z ds_def pos data_of_def es_def[symmetric]
    by (simp add: zip_map_map zip_same_conv_map case_prod_beta)
  also have "\<dots> = map (\<lambda>e. (fst e,
            fdiv (fsub (of_count (snd e)) (Num (mean_adjusted_at ps (distance (fst e)))))
                 (Num (sigma_at ps (distance (fst e)))))) es"
  proof (rule map_cong[OF refl])
    fix e assume e: "e \<in> set es"
    have q: "(distance (fst e), nan_to_num (snd e)) \<in> set ps"
      using e unfolding ps_def distance_data_def es_def by auto
    then have d: "distance (fst e) < n" using bound by auto
    have "(distance (fst e), nan_to_num (snd e)) \<in> set (filter (\<lambda>q. fst q = distance (fst e)) ps)"
      using q by simp
    then have "filter (\<lambda>q. fst q = distance (fst e)) ps \<noteq> []"
      by (metis empty_iff list.set(1))
    then have cnt: "count_at ps (distance (fst e)) \<noteq> 0" unfolding count_at_def by simp
    show "(fst e, fdiv (fsub (of_count (snd e)) (mean_adjusted ! distance (fst e))) (sigma ! distance (fst e)))
      = (fst e, fdiv (fsub (of_count (snd e)) (Num (mean_adjusted_at ps (distance (fst e)))))
                 (Num (sigma_at ps (distance (fst e)))))"
      using entry[OF d cnt] by simp
  qed
  finally show ?thesis unfolding ps_def es_def .
qed

lemma sum_list_shift: "sum_list (map (\<lambda>x. x - m) xs) = sum_list xs - real (length xs) * (m::real)"
  by (induction xs) (simp_all add: algebra_simps)

lemma sum_list_div_const: "sum_list (map (\<lambda>x. f x / (c::real)) xs) = sum_list (map f xs) / c"
  by (induction xs) (simp_all add: add_divide_distrib)

lemma zscore_stats:
  fixes xs :: "real list"
  assumes ne: "xs \<noteq> []"
  defines "n \<equiv> real (length xs)"
  defines "mu \<equiv> (1 + sum_list xs) / n"
  defines "V \<equiv> sum_list (map (\<lambda>x. (x - mu) * (x - mu)) xs)"
  defines "sigma \<equiv> sqrt (V / n)"
  shows "0 < sigma"
    and "sum_list (map (\<lambda>x. (x - mu) / sigma) xs) = - 1 / sigma"
    and "sum_list (map (\<lambda>z. z\<^sup>2) (map (\<lambda>x. (x - mu) / sigma) xs)) = n"
proof -
  have n: "0 < n" using ne by (simp add: n_def)
  have dev: "sum_list (map (\<lambda>x. x - mu) xs) = - 1"
    unfolding sum_list_shift n_def[symmetric] mu_def using n by (simp add: field_simps)
  have V0: "0 \<le> V" unfolding V_def by (rule sum_list_nonneg) auto
  have Vne: "V \<noteq> 0"
  proof
    assume "V = 0"
    then have "\<forall>y\<in>set (map (\<lambda>x. (x - mu) * (x - mu)) xs). y = 0"
      unfolding V_def by (subst (asm) sum_list_nonneg_eq_0_iff) auto
    then have "\<forall>x\<in>set xs. x - mu = 0" by auto
    then have eq: "map (\<lambda>x. x - mu) xs = map (\<lambda>x. 0::real) xs" by (intro map_cong) auto
    have "sum_list (map (\<lambda>x. x - mu) xs) = sum_list (map (\<lambda>x. 0::real) xs)" unfolding eq ..
    also have "\<dots> = 0" by simp
    finally show False using dev by simp
  qed
  then have V: "0 < V" using V0 by simp
  show s: "0 < sigma" unfolding sigma_def using V n by simp
  show "sum_list (map (\<lambda>x. (x - mu) / sigma) xs) = - 1 / sigma"
    unfolding sum_list_div_const dev by simp
  have s2: "sigma\<^sup>2 = V / n" unfolding sigma_def using V n by simp
  have "sum_list (map (\<lambda>z. z\<^sup>2) (map (\<lambda>x. (x - mu) / sigma) xs))
      = sum_list (map (\<lambda>x. ((x - mu) * (x - mu)) / sigma\<^sup>2) xs)"
    by (simp add: comp_def power2_eq_square)
  also have "\<dots> = V / sigma\<^sup>2" unfolding sum_list_div_const V_def by simp
  also have "\<dots> = n" unfolding s2 using V n by simp
  finally show "sum_list (map (\<lambda>z. z\<^sup>2) (map (\<lambda>x. (x - mu) / sigma) xs)) = n" .
qed

lemma finite_values_map_Num: "finite_values (map (\<lambda>e. Num (f e)) es) = map f es"
  by (induction es) simp_all

text \<open>
  Claim C8, as amended. For a matrix on which the function returns, a distance \<open>d\<close> with a
  stored element and no NaN among the elements at that distance: \<open>sigma\<close> is positive and
  every z-score at the distance is a number; their mean is \<open>- 1 / (count * sigma)\<close>, which
  is negative and not 0, because the sum of the distance starts at 1; the mean of their
  squares is exactly 1; hence their variance is 1 minus the square of their mean, which is
  below 1.
\<close>

theorem zscore_mean_and_second_moment:
  assumes z: "compute_zscore_matrix M = Inr Z"
    and present: "\<exists>e\<in>set (entries M). distance (fst e) = d"
    and nonan: "\<forall>e\<in>set (entries M). distance (fst e) = d \<longrightarrow> snd e \<noteq> CountNaN"
  shows "length (zscores_at Z d) = count_at (distance_data M) d
    \<and> 0 < sigma_at (distance_data M) d
    \<and> mean_of (zscores_at Z d)
        = - 1 / (real (count_at (distance_data M) d) * sigma_at (distance_data M) d)
    \<and> mean_of (map (\<lambda>z. z\<^sup>2) (zscores_at Z d)) = 1
    \<and> variance_of (zscores_at Z d) = 1 - (mean_of (zscores_at Z d))\<^sup>2"
proof -
  define ps where "ps = distance_data M"
  define esd where "esd = filter (\<lambda>e. distance (fst e) = d) (entries M)"
  define xs where "xs = map (\<lambda>e. nan_to_num (snd e)) esd"
  define mu where "mu = mean_adjusted_at ps d"
  define sigma where "sigma = sigma_at ps d"
  have ne: "xs \<noteq> []"
    using present unfolding xs_def esd_def by (auto simp: filter_empty_conv)
  have fps: "filter (\<lambda>q. fst q = d) ps = map (\<lambda>e. (distance (fst e), nan_to_num (snd e))) esd"
    unfolding ps_def distance_data_def esd_def by (simp add: filter_map comp_def)
  have cnt: "count_at ps d = length xs" unfolding count_at_def fps xs_def by simp
  have sm: "sum_at ps d = sum_list xs" unfolding sum_at_def fps xs_def by (simp add: comp_def)
  have mu: "mu = (1 + sum_list xs) / real (length xs)"
    unfolding mu_def mean_adjusted_at_def cnt sm ..
  have sq: "sqdev_at ps d mu = sum_list (map (\<lambda>x. (x - mu) * (x - mu)) xs)"
    unfolding sqdev_at_def fps xs_def by (simp add: comp_def)
  have sigma: "sigma = sqrt (sum_list (map (\<lambda>x. (x - mu) * (x - mu)) xs) / real (length xs))"
    unfolding sigma_def sigma_at_def mu_def[symmetric] sq cnt ..
  note st = zscore_stats[OF ne, folded mu, folded sigma]
  have pos: "0 < sigma" by (rule st(1))
  have "map snd (filter (\<lambda>e. distance (fst e) = d) (entries Z))
      = map (\<lambda>e. fdiv (fsub (of_count (snd e)) (Num (mean_adjusted_at ps (distance (fst e)))))
                 (Num (sigma_at ps (distance (fst e))))) esd"
    unfolding zscore_entries[OF z] ps_def esd_def by (simp add: filter_map comp_def)
  also have "\<dots> = map (\<lambda>e. Num ((nan_to_num (snd e) - mu) / sigma)) esd"
  proof (rule map_cong[OF refl])
    fix e assume "e \<in> set esd"
    then have e: "distance (fst e) = d" "snd e \<noteq> CountNaN"
      using nonan unfolding esd_def by auto
    then obtain v where v: "snd e = Count v" by (cases "snd e") auto
    show "fdiv (fsub (of_count (snd e)) (Num (mean_adjusted_at ps (distance (fst e)))))
                 (Num (sigma_at ps (distance (fst e))))
        = Num ((nan_to_num (snd e) - mu) / sigma)"
      using e(1) v pos unfolding mu_def sigma_def by (simp add: fsub_def)
  qed
  finally have zs: "zscores_at Z d = map (\<lambda>x. (x - mu) / sigma) xs"
    unfolding zscores_at_def xs_def by (simp add: finite_values_map_Num comp_def)
  have len: "length (zscores_at Z d) = length xs" unfolding zs by simp
  have zne: "zscores_at Z d \<noteq> []" using ne unfolding zs by simp
  have n0: "0 < real (length xs)" using ne by simp
  have m: "mean_of (zscores_at Z d) = - 1 / (real (length xs) * sigma)"
    unfolding mean_of_def len unfolding zs st(2) using n0 pos by (simp add: field_simps)
  have m2: "mean_of (map (\<lambda>z. z\<^sup>2) (zscores_at Z d)) = 1"
    unfolding mean_of_def length_map len unfolding zs st(3) using n0 by simp
  have v: "variance_of (zscores_at Z d) = 1 - (mean_of (zscores_at Z d))\<^sup>2"
    unfolding variance_of_eq[OF zne] m2 ..
  show ?thesis using len pos m m2 v unfolding cnt[symmetric] sigma_def ps_def by simp
qed

lemma zscore_two_distances:
  "compute_zscore_matrix
     \<lparr>nrows = 5, ncols = 5,
      entries = [((0, 1), Count 20), ((0, 4), Count 5), ((1, 2), Count 15), ((2, 3), Count 14),
                 ((3, 4), Count 14)]\<rparr>
   = Inr \<lparr>nrows = 5, ncols = 5,
          entries = [((0, 1), Num (8/5)), ((0, 4), Num (- 1)), ((1, 2), Num (- 2/5)),
                     ((2, 3), Num (- 4/5)), ((3, 4), Num (- 4/5))]\<rparr>"
  by (simp add: compute_zscore_matrix_def nonzero_def data_of_def distance_def fsub_def Let_def
      numeral_eq_Suc sqrt_25_4)

theorem zscore_mean_and_second_moment_witness:
  "mean_of (map (\<lambda>z. z\<^sup>2) (zscores_at
       \<lparr>nrows = 5, ncols = 5,
        entries = [((0, 1), Num (8/5)), ((0, 4), Num (- 1)), ((1, 2), Num (- 2/5)),
                   ((2, 3), Num (- 4/5)), ((3, 4), Num (- 4/5))]\<rparr> 1)) = 1
   \<and> variance_of (zscores_at
       \<lparr>nrows = 5, ncols = 5,
        entries = [((0, 1), Num (8/5)), ((0, 4), Num (- 1)), ((1, 2), Num (- 2/5)),
                   ((2, 3), Num (- 4/5)), ((3, 4), Num (- 4/5))]\<rparr> 1)
       = 1 - (mean_of (zscores_at
       \<lparr>nrows = 5, ncols = 5,
        entries = [((0, 1), Num (8/5)), ((0, 4), Num (- 1)), ((1, 2), Num (- 2/5)),
                   ((2, 3), Num (- 4/5)), ((3, 4), Num (- 4/5))]\<rparr> 1))\<^sup>2"
proof -
  define M :: "count matrix" where
    "M = \<lparr>nrows = 5, ncols = 5,
      entries = [((0, 1), Count 20), ((0, 4), Count 5), ((1, 2), Count 15), ((2, 3), Count 14),
                 ((3, 4), Count 14)]\<rparr>"
  have p: "\<exists>e\<in>set (entries M). distance (fst e) = 1"
    unfolding M_def by (simp add: distance_def)
  have n: "\<forall>e\<in>set (entries M). distance (fst e) = 1 \<longrightarrow> snd e \<noteq> CountNaN"
    unfolding M_def by simp
  show ?thesis
    using zscore_mean_and_second_moment[OF zscore_two_distances[folded M_def] p n] by blast
qed

text \<open>
  Claim C8 as stated fails. In the 5 x 5 matrix below the four z-scores at distance 1 have
  mean \<open>- 1/10\<close> and variance \<open>99/100\<close>, and the one z-score at distance 4 is \<open>- 1\<close>: mean
  \<open>- 1\<close> and variance 0. All the numbers of the computation are exact in binary floating
  point but the z-scores \<open>8/5\<close>, \<open>- 2/5\<close> and \<open>- 4/5\<close>, so the deviation is not one of rounding.
\<close>

theorem zscore_mean_not_zero_counterexample:
  "compute_zscore_matrix
     \<lparr>nrows = 5, ncols = 5,
      entries = [((0, 1), Count 20), ((0, 4), Count 5), ((1, 2), Count 15), ((2, 3), Count 14),
                 ((3, 4), Count 14)]\<rparr>
   = Inr \<lparr>nrows = 5, ncols = 5,
          entries = [((0, 1), Num (8/5)), ((0, 4), Num (- 1)), ((1, 2), Num (- 2/5)),
                     ((2, 3), Num (- 4/5)), ((3, 4), Num (- 4/5))]\<rparr>
   \<and> zscores_at \<lparr>nrows = 5, ncols = 5,
          entries = [((0, 1), Num (8/5)), ((0, 4), Num (- 1)), ((1, 2), Num (- 2/5)),
                     ((2, 3), Num (- 4/5)), ((3, 4), Num (- 4/5))]\<rparr> 1 = [8/5, - 2/5, - 4/5, - 4/5]
   \<and> mean_of [8/5, - 2/5, - 4/5, - 4/5] = - 1/10
   \<and> variance_of [8/5, - 2/5, - 4/5, - 4/5] = 99/100
   \<and> zscores_at \<lparr>nrows = 5, ncols = 5,
          entries = [((0, 1), Num (8/5)), ((0, 4), Num (- 1)), ((1, 2), Num (- 2/5)),
                     ((2, 3), Num (- 4/5)), ((3, 4), Num (- 4/5))]\<rparr> 4 = [- 1]
   \<and> mean_of [- 1] = - 1
   \<and> variance_of [- 1] = 0"
proof -
  have m1: "mean_of [8/5, - 2/5, - 4/5, - 4/5] = - 1/10" by (simp add: mean_of_def)
  have v1: "variance_of [8/5, - 2/5, - 4/5, - 4/5] = 99/100"
    unfolding variance_of_def m1 by (simp add: power2_eq_square)
  have m4: "mean_of [- 1] = - 1" by (simp add: mean_of_def)
  have v4: "variance_of [- 1] = 0" unfolding variance_of_def m4 by simp
  show ?thesis
    using zscore_two_distances m1 v1 m4 v4
    by (simp add: zscores_at_def distance_def)
qed

subsection \<open>Inputs on which the z-scores and the screening are as specified\<close>

lemma sigma_at_positive:
  assumes "\<exists>e\<in>set (entries M). distance (fst e) = d"
  shows "0 < sigma_at (distance_data M) d"
proof -
  define ps where "ps = distance_data M"
  define esd where "esd = filter (\<lambda>e. distance (fst e) = d) (entries M)"
  define xs where "xs = map (\<lambda>e. nan_to_num (snd e)) esd"
  have ne: "xs \<noteq> []"
    using assms unfolding xs_def esd_def by (auto simp: filter_empty_conv)
  have fps: "filter (\<lambda>q. fst q = d) ps = map (\<lambda>e. (distance (fst e), nan_to_num (snd e))) esd"
    unfolding ps_def distance_data_def esd_def by (simp add: filter_map comp_def)
  have cnt: "count_at ps d = length xs" unfolding count_at_def fps xs_def by simp
  have sm: "sum_at ps d = sum_list xs" unfolding sum_at_def fps xs_def by (simp add: comp_def)
  have mu: "mean_adjusted_at ps d = (1 + sum_list xs) / real (length xs)"
    unfolding mean_adjusted_at_def cnt sm ..
  have sq: "sqdev_at ps d (mean_adjusted_at ps d)
      = sum_list (map (\<lambda>x. (x - mean_adjusted_at ps d) * (x - mean_adjusted_at ps d)) xs)"
    unfolding sqdev_at_def fps xs_def by (simp add: comp_def)
  have "sigma_at ps d = sqrt (sum_list (map (\<lambda>x. (x - (1 + sum_list xs) / real (length xs))
        * (x - (1 + sum_list xs) / real (length xs))) xs) / real (length xs))"
    unfolding sigma_at_def sq cnt unfolding mu ..
  then show ?thesis using zscore_stats(1)[OF ne] unfolding ps_def by simp
qed

text \<open>
  On a matrix without NaN on which the function returns, the result stores a finite
  z-score at every stored position of the input and nothing is left out: \<open>sigma\<close> is
  positive at every distance that occurs.
\<close>

theorem zscore_finite_without_nan:
  assumes z: "compute_zscore_matrix M = Inr Z"
    and nonan: "\<forall>e\<in>set (entries M). snd e \<noteq> CountNaN"
  shows "map fst (entries Z) = map fst (entries M) \<and> (\<forall>e\<in>set (entries Z). isfinite (snd e))"
proof -
  let ?g = "\<lambda>e. (fst e,
            fdiv (fsub (of_count (snd e)) (Num (mean_adjusted_at (distance_data M) (distance (fst e)))))
                 (Num (sigma_at (distance_data M) (distance (fst e)))))"
  have ez: "entries Z = map ?g (entries M)" by (rule zscore_entries[OF z])
  have p: "map fst (entries Z) = map fst (entries M)" unfolding ez by (simp add: comp_def)
  have "isfinite (snd (?g e))" if e: "e \<in> set (entries M)" for e
  proof -
    obtain v where v: "snd e = Count v" using nonan e by (cases "snd e") auto
    have "\<exists>e'\<in>set (entries M). distance (fst e') = distance (fst e)" using e by blast
    then have "0 < sigma_at (distance_data M) (distance (fst e))" by (rule sigma_at_positive)
    then show ?thesis using v by (simp add: fsub_def)
  qed
  then have "\<forall>e\<in>set (entries Z). isfinite (snd e)" unfolding ez by auto
  then show ?thesis using p by simp
qed

theorem zscore_finite_without_nan_witness:
  "list_all (\<lambda>e. isfinite (snd e)) (entries
     \<lparr>nrows = 5, ncols = 5,
          entries = [((0, 1), Num (8/5)), ((0, 4), Num (- 1)), ((1, 2), Num (- 2/5)),
                     ((2, 3), Num (- 4/5)), ((3, 4), Num (- 4/5))]\<rparr>)"
proof -
  define M :: "count matrix" where
    "M = \<lparr>nrows = 5, ncols = 5,
      entries = [((0, 1), Count 20), ((0, 4), Count 5), ((1, 2), Count 15), ((2, 3), Count 14),
                 ((3, 4), Count 14)]\<rparr>"
  have n: "\<forall>e\<in>set (entries M). snd e \<noteq> CountNaN" unfolding M_def by simp
  show ?thesis
    using zscore_finite_without_nan[OF zscore_two_distances[folded M_def] n]
    unfolding list_all_iff by blast
qed

lemma select_zip_masks:
  assumes "length zs = length hs"
  shows "select (map f zs) (map (\<lambda>(x, y). x \<and> y) (zip (map P zs) (map Q hs)))
       = map (\<lambda>zh. f (fst zh)) (filter (\<lambda>zh. P (fst zh) \<and> Q (snd zh)) (zip zs hs))"
  using assms by (induction zs hs rule: list_induct2) (simp_all add: select_Cons)

text \<open>
  When the z-score matrix stores no zero and stores the positions of the contact matrix,
  in the same order, the two masks are aligned: the candidates are the positions whose
  z-score is at least the threshold and whose raw count, at the same position, is above
  the interaction threshold.
\<close>

theorem screen_aligned:
  assumes al: "map fst (entries Z) = map fst (entries H)"
    and nz: "\<forall>e\<in>set (entries Z). snd e \<noteq> Num 0"
  shows "screen H Z t pit =
     Inr (map (\<lambda>zh. (int (fst (fst (fst zh))), int (snd (fst (fst zh)))))
           (filter (\<lambda>zh. fge (snd (fst zh)) t \<and> cgt (snd (snd zh)) pit
                         \<and> fst (fst zh) = fst (snd zh))
              (zip (entries Z) (entries H))))"
proof -
  have len: "length (entries Z) = length (entries H)"
    using al by (metis length_map)
  have same: "\<forall>zh\<in>set (zip (entries Z) (entries H)). fst (fst zh) = fst (snd zh)"
  proof
    fix zh assume "zh \<in> set (zip (entries Z) (entries H))"
    then obtain i where i: "i < length (entries Z)" "zh = (entries Z ! i, entries H ! i)"
      using len by (auto simp: in_set_zip)
    have "map fst (entries Z) ! i = map fst (entries H) ! i" using al by simp
    then show "fst (fst zh) = fst (snd zh)" using i len by simp
  qed
  have f: "filter (\<lambda>e. snd e \<noteq> Num 0) (entries Z) = entries Z"
    using nz by (simp add: filter_id_conv)
  have ez: "entries (eliminate_zeros (Num 0) Z) = entries Z"
    unfolding eliminate_zeros_def by (simp add: f)
  have l1: "length (map (\<lambda>v. fge v t) (map snd (entries Z)))
      = length (map (\<lambda>v. cgt v pit) (map snd (entries H)))" using len by simp
  have sel: "select (map fst (entries Z))
        (map (\<lambda>(x, y). x \<and> y) (zip (map (\<lambda>e. fge (snd e) t) (entries Z))
                                   (map (\<lambda>e. cgt (snd e) pit) (entries H))))
      = map (\<lambda>zh. fst (fst zh)) (filter (\<lambda>zh. fge (snd (fst zh)) t \<and> cgt (snd (snd zh)) pit)
            (zip (entries Z) (entries H)))"
    by (rule select_zip_masks[OF len])
  have flt: "filter (\<lambda>zh. fge (snd (fst zh)) t \<and> cgt (snd (snd zh)) pit) (zip (entries Z) (entries H))
      = filter (\<lambda>zh. fge (snd (fst zh)) t \<and> cgt (snd (snd zh)) pit \<and> fst (fst zh) = fst (snd zh))
          (zip (entries Z) (entries H))"
    using same by (intro filter_cong) auto
  have "screen H Z t pit =
     Inr (map (\<lambda>(r, c). (int r, int c)) (select (map fst (entries Z))
        (map (\<lambda>(x, y). x \<and> y) (zip (map (\<lambda>e. fge (snd e) t) (entries Z))
                                   (map (\<lambda>e. cgt (snd e) pit) (entries H))))))"
    unfolding screen_def Let_def nonzero_def data_of_def ez f
    using len by (simp add: logical_and_def mask_index_def comp_def select_def)
  then show ?thesis unfolding sel flt by (simp add: comp_def case_prod_beta)
qed

theorem screen_aligned_witness:
  "screen \<lparr>nrows = 3, ncols = 3, entries = [((0, 1), Count 20), ((0, 2), Count 5), ((1, 2), Count 30)]\<rparr>
        \<lparr>nrows = 3, ncols = 3, entries = [((0, 1), Num 9), ((0, 2), Num 12), ((1, 2), Num 3)]\<rparr> 8 10
       = Inr [(0, 1)]"
proof -
  define H :: "count matrix" where
    "H = \<lparr>nrows = 3, ncols = 3, entries = [((0, 1), Count 20), ((0, 2), Count 5), ((1, 2), Count 30)]\<rparr>"
  define Z :: "fval matrix" where
    "Z = \<lparr>nrows = 3, ncols = 3, entries = [((0, 1), Num 9), ((0, 2), Num 12), ((1, 2), Num 3)]\<rparr>"
  have al: "map fst (entries Z) = map fst (entries H)" unfolding H_def Z_def by simp
  have nz: "\<forall>e\<in>set (entries Z). snd e \<noteq> Num 0" unfolding Z_def by simp
  show ?thesis
    using screen_aligned[OF al nz, of 8 10] unfolding H_def Z_def by simp
qed

text \<open>
  Inside \<open>candidates_before_fdr\<close> the p-values are as many as the candidates that passed
  the test, so the labels, checked to be as many as those candidates, are as many as the
  p-values: the cluster loop runs on lists of equal length.
\<close>

lemma prepend_Inr:
  "prepend b ps r = Inr (msk, pvalues) \<Longrightarrow>
     \<exists>msk' pvalues'. r = Inr (msk', pvalues') \<and> msk = b # msk' \<and> pvalues = ps @ pvalues'"
  by (cases r) auto

lemma mw_loop_lengths:
  "mw_loop mw M w pP i cands = Inr (msk, pvalues) \<Longrightarrow>
     length msk = length cands \<and> length pvalues = length (select cands msk)"
proof (induction cands arbitrary: i msk pvalues)
  case Nil
  then show ?case by simp
next
  case (Cons c cands)
  let ?rec = "mw_loop mw M w pP (Suc i) cands"
  from Cons.prems obtain b ps where p: "prepend b ps ?rec = Inr (msk, pvalues)"
    and bp: "(b \<and> length ps = 1) \<or> (\<not> b \<and> ps = [])"
    by (auto simp: Let_def split: if_splits mw_result.splits)
  from prepend_Inr[OF p] obtain msk' pvalues' where
    r: "?rec = Inr (msk', pvalues')" and m: "msk = b # msk'" and pv: "pvalues = ps @ pvalues'"
    by blast
  have IH: "length msk' = length cands \<and> length pvalues' = length (select cands msk')"
    using Cons.IH[OF r] .
  show ?case using IH m pv bp by (auto simp: select_Cons)
qed

end
